theory Spec2Isabelle
  imports Main "HOL-Library.Word" "HOL-Library.List_Lexorder" "HOL-Library.Multiset"
begin

unbundle bit_operations_syntax

chapter \<open>The model\<close>

section \<open>Slices and status codes\<close>

type_synonym byte = "8 word"

text \<open>A \<^verbatim>\<open>Slice\<close> is a byte string; only its bytes and its length are observable.\<close>

type_synonym Slice = "byte list"

datatype Status = OK | NotFound | InvalidArgument

text \<open>
  Modelled from the spec: \<^verbatim>\<open>Slice::compare\<close> is not under src. The spec gives keys a
  "total order by lexicographic compare": bytes are compared as unsigned values from the
  front, and when one slice is a prefix of the other the shorter one is smaller. Only the
  sign of the result is used by the callers.
\<close>

fun Slice_compare :: "Slice \<Rightarrow> Slice \<Rightarrow> int" where
  "Slice_compare [] [] = 0"
| "Slice_compare [] (b # bs) = - 1"
| "Slice_compare (a # as) [] = 1"
| "Slice_compare (a # as) (b # bs) =
     (if a < b then - 1 else if b < a then 1 else Slice_compare as bs)"

section \<open>MemTable (db/memtable.cc)\<close>

text \<open>
  \<^verbatim>\<open>MemTable::EntryType\<close> is an enumeration stored in one byte
  (\<^verbatim>\<open>static_cast<uint8_t>(entry_type)\<close>); its declaration is in the absent header.
  The two writers use \<^verbatim>\<open>kWrite\<close> and \<^verbatim>\<open>kDelete\<close>, taken here as the bytes 0 and 1.
\<close>

type_synonym EntryType = "8 word"

definition kWrite :: EntryType where
  "kWrite = 0"

definition kDelete :: EntryType where
  "kDelete = 1"

definition kEntryTypeMask :: "64 word" where
  "kEntryTypeMask = 0xFF"

text \<open>
  A \<^verbatim>\<open>MemTable::Record\<close>: the key and value bytes stored inline and the 64-bit
  sequence number whose low 8 bits hold the entry type.
\<close>

record MemTable_Record =
  rkey :: Slice
  rvalue :: Slice
  rsequence_number :: "64 word"

text \<open>\<^verbatim>\<open>MemTable::Comparator::operator()\<close>.\<close>

definition Comparator :: "MemTable_Record \<Rightarrow> MemTable_Record \<Rightarrow> int" where
  "Comparator r1 r2 =
     (let comp = Slice_compare (rkey r1) (rkey r2) in
      if comp \<noteq> 0 then comp
      else if rsequence_number r1 < rsequence_number r2 then 1
      else if rsequence_number r1 > rsequence_number r2 then - 1
      else 0)"

text \<open>
  Modelled from the spec: the skip list behind \<^verbatim>\<open>table_\<close> is not under src. The spec
  asks for "an order-preserving structure with logarithmic insert and ordered iteration";
  it is modelled by the list of its records in iteration order. \<^verbatim>\<open>Insert\<close> links the
  new record in front of the first stored record that does not compare less than it, and
  \<^verbatim>\<open>Seek\<close> positions an iterator at the first stored record that does not compare less
  than the target. An iterator is the list of records from its position to the end: it is
  valid when that list is not empty.
\<close>

fun SkipList_Insert :: "MemTable_Record \<Rightarrow> MemTable_Record list \<Rightarrow> MemTable_Record list" where
  "SkipList_Insert r [] = [r]"
| "SkipList_Insert r (x # xs) =
     (if Comparator x r < 0 then x # SkipList_Insert r xs else r # x # xs)"

definition SkipList_Seek :: "MemTable_Record \<Rightarrow> MemTable_Record list \<Rightarrow> MemTable_Record list" where
  "SkipList_Seek target xs = dropWhile (\<lambda>x. Comparator x target < 0) xs"

record MemTable =
  table :: "MemTable_Record list"
  next_sequence_num :: "64 word"

text \<open>The constructor \<^verbatim>\<open>MemTable::MemTable()\<close>.\<close>

definition MemTable_new :: MemTable where
  "MemTable_new = \<lparr>table = [], next_sequence_num = 0\<rparr>"

text \<open>
  \<^verbatim>\<open>MemTable::InsertImpl\<close>: the record is stamped with
  \<^verbatim>\<open>(next_sequence_num_++ << 8) | entry_type\<close> in 64-bit arithmetic and inserted; the
  only return is \<^verbatim>\<open>Status::OK()\<close>.
\<close>

definition InsertImpl :: "MemTable \<Rightarrow> Slice \<Rightarrow> Slice \<Rightarrow> EntryType \<Rightarrow> Status \<times> MemTable" where
  "InsertImpl mt k v entry_type =
     (let record =
        \<lparr>rkey = k, rvalue = v,
         rsequence_number = push_bit 8 (next_sequence_num mt) OR ucast entry_type\<rparr>
      in (OK, mt\<lparr>table := SkipList_Insert record (table mt),
                 next_sequence_num := next_sequence_num mt + 1\<rparr>))"

definition Put :: "MemTable \<Rightarrow> Slice \<Rightarrow> Slice \<Rightarrow> Status \<times> MemTable" where
  "Put mt k v = InsertImpl mt k v kWrite"

definition Delete :: "MemTable \<Rightarrow> Slice \<Rightarrow> Status \<times> MemTable" where
  "Delete mt k = InsertImpl mt k [] kDelete"

text \<open>The \<^verbatim>\<open>MemTable::Iterator\<close> operations that \<^verbatim>\<open>Get\<close> uses.\<close>

definition GetIterator :: "MemTable \<Rightarrow> MemTable_Record list" where
  "GetIterator mt = table mt"

definition Iterator_Valid :: "MemTable_Record list \<Rightarrow> bool" where
  "Iterator_Valid it = (it \<noteq> [])"

definition Iterator_key :: "MemTable_Record list \<Rightarrow> Slice" where
  "Iterator_key it = rkey (hd it)"

definition Iterator_value :: "MemTable_Record list \<Rightarrow> Slice" where
  "Iterator_value it = rvalue (hd it)"

definition Iterator_type :: "MemTable_Record list \<Rightarrow> EntryType" where
  "Iterator_type it = ucast (rsequence_number (hd it) AND kEntryTypeMask)"

text \<open>
  \<^verbatim>\<open>MemTable::Iterator::Seek\<close>: the lookup record carries the target key, an empty
  value and the largest 64-bit sequence number.
\<close>

definition Iterator_Seek :: "Slice \<Rightarrow> MemTable_Record list \<Rightarrow> MemTable_Record list" where
  "Iterator_Seek target it =
     SkipList_Seek \<lparr>rkey = target, rvalue = [], rsequence_number = - 1\<rparr> it"

text \<open>
  \<^verbatim>\<open>MemTable::Get\<close>: the status, and the two out-parameters
  (\<^verbatim>\<open>entry_type_out\<close>, \<^verbatim>\<open>value_out\<close>) when they are written.
\<close>

definition Get :: "MemTable \<Rightarrow> Slice \<Rightarrow> Status \<times> (EntryType \<times> Slice) option" where
  "Get mt k =
     (let it = Iterator_Seek k (GetIterator mt) in
      if \<not> Iterator_Valid it \<or> Slice_compare k (Iterator_key it) \<noteq> 0
      then (NotFound, None)
      else (OK, Some (Iterator_type it, Iterator_value it)))"

text \<open>A trace of writer calls on a fresh MemTable.\<close>

datatype Op = PutOp Slice Slice | DeleteOp Slice

fun op_key :: "Op \<Rightarrow> Slice" where
  "op_key (PutOp k v) = k"
| "op_key (DeleteOp k) = k"

fun apply_op :: "MemTable \<Rightarrow> Op \<Rightarrow> MemTable" where
  "apply_op mt (PutOp k v) = snd (Put mt k v)"
| "apply_op mt (DeleteOp k) = snd (Delete mt k)"

definition run_ops :: "Op list \<Rightarrow> MemTable" where
  "run_ops ops = foldl apply_op MemTable_new ops"

text \<open>The most recent operation of a trace on key \<open>k\<close>, if there is one.\<close>

definition last_op :: "Slice \<Rightarrow> Op list \<Rightarrow> Op option" where
  "last_op k ops = List.find (\<lambda>op. op_key op = k) (rev ops)"

text \<open>What a lookup is expected to report after a given last operation.\<close>

fun expected_get :: "Op option \<Rightarrow> Status \<times> (EntryType \<times> Slice) option" where
  "expected_get None = (NotFound, None)"
| "expected_get (Some (PutOp k v)) = (OK, Some (kWrite, v))"
| "expected_get (Some (DeleteOp k)) = (OK, Some (kDelete, []))"

section \<open>Page grouping: keys, records and pages\<close>

type_synonym Key = "64 word"

text \<open>A page-grouping \<^verbatim>\<open>Record\<close> is \<^verbatim>\<open>std::pair<Key, Slice>\<close>.\<close>

type_synonym Record = "Key \<times> Slice"

text \<open>
  What stops a call without a status: a failed \<^verbatim>\<open>assert\<close>, a \<^verbatim>\<open>std::out_of_range\<close>
  thrown by \<^verbatim>\<open>at()\<close>, an integer division by zero, and the dereference of an empty
  optional model.
\<close>

datatype failure = AssertionFailed | OutOfRange | DivisionByZero | NullModel

text \<open>
  A segment id names a file (the size class) and a page offset in it; an invalid id is
  \<open>None\<close>. The model line of a segment (\<^verbatim>\<open>plr::Line64\<close>) is not under src and is
  left unspecified; the functions modelled here only ever store "no model".
\<close>

type_synonym SegmentId = "nat \<times> nat"

typedecl Line64

record SegmentInfo =
  seg_id :: SegmentId
  seg_model :: "Line64 option"

text \<open>
  Modelled from the spec: the page codec (\<^verbatim>\<open>pg::Page\<close>) is not under src. A page
  carries its lower and upper boundary, the records put into it (kept in the order of
  the \<^verbatim>\<open>Put\<close> calls, which the callers make in ascending key order), the segment-level
  sequence number and its overflow id. \<^verbatim>\<open>Put(k,v)\<close> answers ok or full.
\<close>

record Page =
  page_lower :: Slice
  page_upper :: Slice
  page_records :: "(Slice \<times> Slice) list"
  page_sequence_number :: "32 word"
  page_overflow :: "SegmentId option"

text \<open>
  The parts of absent code that the functions below call and that this development
  leaves open: the two key conversions of \<^verbatim>\<open>util/key.h\<close> and the test whether a
  record still fits into a page.
\<close>

record Codec =
  IntKeyAsSlice :: "Key \<Rightarrow> Slice"
  ExtractHead64 :: "Slice \<Rightarrow> Key"
  Page_fits :: "Page \<Rightarrow> Slice \<Rightarrow> Slice \<Rightarrow> bool"

text \<open>A page-sized buffer after \<^verbatim>\<open>memset(buf, 0, kSize)\<close>.\<close>

definition zero_page :: Page where
  "zero_page = \<lparr>page_lower = [], page_upper = [], page_records = [],
                 page_sequence_number = 0, page_overflow = None\<rparr>"

text \<open>The constructor \<^verbatim>\<open>pg::Page(buf, lower, upper)\<close> on a zeroed buffer.\<close>

definition Page_new :: "Slice \<Rightarrow> Slice \<Rightarrow> Page" where
  "Page_new lower upper = zero_page\<lparr>page_lower := lower, page_upper := upper\<rparr>"

datatype PutStatus = PutOK | PutFull

definition Page_Put :: "Codec \<Rightarrow> Page \<Rightarrow> Slice \<Rightarrow> Slice \<Rightarrow> PutStatus \<times> Page" where
  "Page_Put cd page k v =
     (if Page_fits cd page k v
      then (PutOK, page\<lparr>page_records := page_records page @ [(k, v)]\<rparr>)
      else (PutFull, page))"

text \<open>\<^verbatim>\<open>SegmentWrap\<close> over one page: the two setters that \<^verbatim>\<open>LoadIntoNewPages\<close> calls.\<close>

definition SetSequenceNumber :: "32 word \<Rightarrow> Page \<Rightarrow> Page" where
  "SetSequenceNumber sequence_number page = page\<lparr>page_sequence_number := sequence_number\<rparr>"

definition ClearAllOverflows :: "Page \<Rightarrow> Page" where
  "ClearAllOverflows page = page\<lparr>page_overflow := None\<rparr>"

section \<open>Loading records into new pages (page_grouping/manager_load.cc)\<close>

text \<open>
  The members of \<^verbatim>\<open>Manager\<close> and of its options that \<^verbatim>\<open>LoadIntoNewPages\<close> and
  \<^verbatim>\<open>FlattenChain\<close> read or write: the free list, the first segment file (the number
  of one-page segments allocated in it), the pages written to disk in the order of the
  \<^verbatim>\<open>WritePages\<close> calls, the write counter and the next sequence number.
\<close>

record Options =
  records_per_page_goal :: nat

record Manager =
  free_list :: "SegmentId list"
  sf_allocated :: nat
  disk_writes :: "(SegmentId \<times> Page) list"
  write_count :: nat
  next_sequence_number :: "32 word"

text \<open>Modelled from the spec: the page size, "fixed size PAGE_SIZE (e.g. 4 KiB)".\<close>

definition Page_kSize :: nat where
  "Page_kSize = 4096"

text \<open>
  Modelled from the spec: the free list is not under src. \<^verbatim>\<open>Get(page_count)\<close> hands out
  "a SegmentId from the free list if one of matching page count exists"; the page count of
  a segment is two to the power of its file index.
\<close>

definition FreeList_Get :: "nat \<Rightarrow> SegmentId list \<Rightarrow> SegmentId option \<times> SegmentId list" where
  "FreeList_Get page_count fl =
     (case List.find (\<lambda>seg. 2 ^ fst seg = page_count) fl of
        None \<Rightarrow> (None, fl)
      | Some seg \<Rightarrow> (Some seg, remove1 seg fl))"

text \<open>
  Modelled from the spec: \<^verbatim>\<open>SegmentFile::AllocateSegment\<close> is not under src; on the first
  file it returns the byte offset of the next unused page.
\<close>

definition AllocateSegment :: "Manager \<Rightarrow> nat \<times> Manager" where
  "AllocateSegment m = (sf_allocated m * Page_kSize, m\<lparr>sf_allocated := sf_allocated m + 1\<rparr>)"

text \<open>
  \<^verbatim>\<open>LoadIntoPage\<close> for page index 0 of a zeroed buffer: the status of the first failing
  \<^verbatim>\<open>Put\<close>, or ok, and the buffer afterwards. The on-disk upper bound is inclusive,
  \<^verbatim>\<open>upper - 1\<close> in 64 bits.
\<close>

fun LoadIntoPage_puts :: "Codec \<Rightarrow> Page \<Rightarrow> Record list \<Rightarrow> PutStatus \<times> Page" where
  "LoadIntoPage_puts cd page [] = (PutOK, page)"
| "LoadIntoPage_puts cd page (r # rs) =
     (case Page_Put cd page (IntKeyAsSlice cd (fst r)) (snd r) of
        (PutOK, page') \<Rightarrow> LoadIntoPage_puts cd page' rs
      | (PutFull, page') \<Rightarrow> (PutFull, page'))"

definition LoadIntoPage :: "Codec \<Rightarrow> Key \<Rightarrow> Key \<Rightarrow> Record list \<Rightarrow> PutStatus \<times> Page" where
  "LoadIntoPage cd lower upper recs =
     LoadIntoPage_puts cd (Page_new (IntKeyAsSlice cd lower) (IntKeyAsSlice cd (upper - 1))) recs"

text \<open>
  The block that both branches of \<^verbatim>\<open>LoadIntoNewPages\<close> run after filling the buffer:
  stamp the sequence number, clear the overflows, take a segment id from the free list or
  allocate one, write the page and bump the write counter.
\<close>

definition write_new_page :: "32 word \<Rightarrow> Page \<Rightarrow> Manager \<Rightarrow> SegmentId \<times> Manager" where
  "write_new_page sequence_number buf m =
     (let sw = ClearAllOverflows (SetSequenceNumber sequence_number buf);
          (seg, m1) =
            (case FreeList_Get 1 (free_list m) of
               (Some seg, fl) \<Rightarrow> (seg, m\<lparr>free_list := fl\<rparr>)
             | (None, fl) \<Rightarrow>
                 (case AllocateSegment m of
                    (byte_offset, m') \<Rightarrow> ((0, byte_offset div Page_kSize), m')))
      in (seg, m1\<lparr>disk_writes := disk_writes m1 @ [(seg, sw)],
                  write_count := write_count m1 + 1\<rparr>))"

text \<open>
  The loop \<^verbatim>\<open>while (page_end_idx <= num_records)\<close>. It does not terminate when
  \<^verbatim>\<open>records_per_page_goal\<close> is 0, so it is a partial function: \<open>None\<close> is a run that
  never returns. A failed \<^verbatim>\<open>assert(result.ok())\<close> ends it with \<open>AssertionFailed\<close>.
\<close>

partial_function (option) LoadIntoNewPages_loop ::
  "Codec \<Rightarrow> Options \<Rightarrow> 32 word \<Rightarrow> Key \<Rightarrow> Key \<Rightarrow> Record list \<Rightarrow>
   nat \<Rightarrow> nat \<Rightarrow> (Key \<times> SegmentInfo) list \<Rightarrow> Manager \<Rightarrow>
   (failure + nat \<times> (Key \<times> SegmentInfo) list \<times> Manager) option" where
  "LoadIntoNewPages_loop cd opts sequence_number lower_bound upper_bound recs
       page_start_idx page_end_idx segment_boundaries m =
     (if page_end_idx \<le> length recs then
        (let lower = (if page_start_idx = 0 then lower_bound else fst (recs ! page_start_idx));
             upper = (if page_end_idx = length recs then upper_bound else fst (recs ! page_end_idx))
         in case LoadIntoPage cd lower upper
                   (take (page_end_idx - page_start_idx) (drop page_start_idx recs)) of
              (PutFull, buf) \<Rightarrow> Some (Inl AssertionFailed)
            | (PutOK, buf) \<Rightarrow>
                (case write_new_page sequence_number buf m of
                   (seg, m') \<Rightarrow>
                     LoadIntoNewPages_loop cd opts sequence_number lower_bound upper_bound recs
                       page_end_idx (page_end_idx + records_per_page_goal opts)
                       (segment_boundaries @ [(lower, \<lparr>seg_id = seg, seg_model = None\<rparr>)]) m'))
      else Some (Inr (page_start_idx, segment_boundaries, m)))"

text \<open>
  \<^verbatim>\<open>Manager::LoadIntoNewPages\<close>: the loop over the full pages, then the branch
  \<^verbatim>\<open>if (page_start_idx < num_records)\<close> for the records that go on the last page,
  which calls \<^verbatim>\<open>sw.SetSequenceNumber(0)\<close>.
\<close>

definition LoadIntoNewPages ::
  "Codec \<Rightarrow> Options \<Rightarrow> Manager \<Rightarrow> 32 word \<Rightarrow> Key \<Rightarrow> Key \<Rightarrow> Record list \<Rightarrow>
   (failure + (Key \<times> SegmentInfo) list \<times> Manager) option" where
  "LoadIntoNewPages cd opts m sequence_number lower_bound upper_bound recs =
     (case LoadIntoNewPages_loop cd opts sequence_number lower_bound upper_bound recs
             0 (records_per_page_goal opts) [] m of
        None \<Rightarrow> None
      | Some (Inl e) \<Rightarrow> Some (Inl e)
      | Some (Inr (page_start_idx, segment_boundaries, m1)) \<Rightarrow>
          (if page_start_idx < length recs then
             (let lower = (if page_start_idx = 0 then lower_bound else fst (recs ! page_start_idx))
              in case LoadIntoPage cd lower upper_bound (drop page_start_idx recs) of
                   (PutFull, buf) \<Rightarrow> Some (Inl AssertionFailed)
                 | (PutOK, buf) \<Rightarrow>
                     (case write_new_page 0 buf m1 of
                        (seg, m2) \<Rightarrow>
                          Some (Inr (segment_boundaries @ [(lower, \<lparr>seg_id = seg, seg_model = None\<rparr>)],
                                     m2))))
           else Some (Inr (segment_boundaries, m1))))"


section \<open>PagePlusRecordMerger (page_grouping/manager_rewrite.cc)\<close>

text \<open>
  Modelled from the spec: \<^verbatim>\<open>PageMergeIterator\<close> is not under src. It produces the
  records of its pages in ascending key order; it is modelled by the list of the records
  it has yet to produce. \<^verbatim>\<open>Valid()\<close> is non-emptiness, \<^verbatim>\<open>key()\<close> and \<^verbatim>\<open>value()\<close>
  read the head, \<^verbatim>\<open>Next()\<close> drops it. The in-memory range \<^verbatim>\<open>[it_, it_end_)\<close> is the
  list of the records in it.
\<close>

type_synonym PageMergeIterator = "(Slice \<times> Slice) list"

record PagePlusRecordMerger =
  m_pmi :: PageMergeIterator
  m_it :: "Record list"

definition HasPageRecords :: "PagePlusRecordMerger \<Rightarrow> bool" where
  "HasPageRecords m = (m_pmi m \<noteq> [])"

definition HasRecords :: "PagePlusRecordMerger \<Rightarrow> bool" where
  "HasRecords m = (HasPageRecords m \<or> m_it m \<noteq> [])"

text \<open>\<^verbatim>\<open>PagePlusRecordMerger::GetNext\<close>: the record returned and the merger afterwards.\<close>

definition GetNext :: "Codec \<Rightarrow> PagePlusRecordMerger \<Rightarrow> failure + (Record \<times> PagePlusRecordMerger)" where
  "GetNext cd m =
     (if \<not> HasRecords m then Inl AssertionFailed
      else if \<not> HasPageRecords m then
        Inr (hd (m_it m), m\<lparr>m_it := tl (m_it m)\<rparr>)
      else if m_it m = [] then
        Inr ((ExtractHead64 cd (fst (hd (m_pmi m))), snd (hd (m_pmi m))),
             m\<lparr>m_pmi := tl (m_pmi m)\<rparr>)
      else
        (let pmi_key = ExtractHead64 cd (fst (hd (m_pmi m)));
             it_key = fst (hd (m_it m))
         in if it_key \<le> pmi_key then
              Inr (hd (m_it m),
                   m\<lparr>m_it := tl (m_it m),
                     m_pmi := (if it_key = pmi_key then tl (m_pmi m) else m_pmi m)\<rparr>)
            else
              Inr ((pmi_key, snd (hd (m_pmi m))), m\<lparr>m_pmi := tl (m_pmi m)\<rparr>)))"

text \<open>
  The loop \<^verbatim>\<open>while (pm.HasRecords()) { ... pm.GetNext() ... }\<close> of
  \<^verbatim>\<open>RewriteSegments\<close>, collecting the records it hands to the segment builder.
\<close>

function GetNext_all :: "Codec \<Rightarrow> PagePlusRecordMerger \<Rightarrow> Record list" where
  "GetNext_all cd m =
     (if HasRecords m then
        (case GetNext cd m of
           Inl e \<Rightarrow> []
         | Inr (r, m') \<Rightarrow> r # GetNext_all cd m')
      else [])"
  by pat_completeness auto
termination
proof (relation "measure (\<lambda>(cd, m). length (m_pmi m) + length (m_it m))")
  show "wf (measure (\<lambda>(cd, m). length (m_pmi m) + length (m_it m)))" by simp
next
  fix cd :: Codec and m x2 x y
  assume "HasRecords m" and "GetNext cd m = Inr x2" and "(x, y) = x2"
  then show "((cd, y), cd, m) \<in> measure (\<lambda>(cd, m). length (m_pmi m) + length (m_it m))"
    by (cases "m_pmi m"; cases "m_it m")
       (auto simp add: GetNext_def HasRecords_def HasPageRecords_def Let_def split: if_splits)
qed

declare GetNext_all.simps [simp del]

section \<open>FlattenChain (page_grouping/manager_rewrite.cc)\<close>

text \<open>
  The three loops of \<^verbatim>\<open>Manager::FlattenChain\<close> that fill the vector \<^verbatim>\<open>records\<close>:
  the merge while both sides have records, then the rest of the pages, then the rest of
  the in-memory range.
\<close>

fun FlattenChain_both :: "Codec \<Rightarrow> PageMergeIterator \<Rightarrow> Record list \<Rightarrow> Record list
    \<Rightarrow> PageMergeIterator \<times> Record list \<times> Record list" where
  "FlattenChain_both cd (p # ps) (r # rs) records =
     (let pmi_key = ExtractHead64 cd (fst p) in
      if pmi_key = fst r then FlattenChain_both cd ps rs (records @ [r])
      else if pmi_key < fst r then FlattenChain_both cd ps (r # rs) (records @ [(pmi_key, snd p)])
      else FlattenChain_both cd (p # ps) rs (records @ [r]))"
| "FlattenChain_both cd ps rs records = (ps, rs, records)"

fun FlattenChain_pages :: "Codec \<Rightarrow> PageMergeIterator \<Rightarrow> Record list \<Rightarrow> Record list" where
  "FlattenChain_pages cd (p # ps) records =
     FlattenChain_pages cd ps (records @ [(ExtractHead64 cd (fst p), snd p)])"
| "FlattenChain_pages cd [] records = records"

fun FlattenChain_memory :: "Record list \<Rightarrow> Record list \<Rightarrow> Record list" where
  "FlattenChain_memory (r # rs) records = FlattenChain_memory rs (records @ [r])"
| "FlattenChain_memory [] records = records"

definition FlattenChain_records :: "Codec \<Rightarrow> PageMergeIterator \<Rightarrow> Record list \<Rightarrow> Record list" where
  "FlattenChain_records cd pmi addtl =
     (case FlattenChain_both cd pmi addtl [] of
        (pmi', rec_it, records) \<Rightarrow>
          FlattenChain_memory rec_it (FlattenChain_pages cd pmi' records))"

text \<open>
  Lines 462 to 499 of \<^verbatim>\<open>Manager::FlattenChain\<close>: merge the chain's records with
  the in-memory batch, allocate the operation's sequence number
  (\<^verbatim>\<open>next_sequence_number_++\<close>) and bulk-load the merged records. The page reads
  before and the invalidation of the old pages and the index update after are outside
  this model; \<open>pmi\<close> is the chain's merge iterator, \<open>base\<close> and \<open>upper\<close> the bounds
  found in the index.
\<close>

definition FlattenChain_load ::
  "Codec \<Rightarrow> Options \<Rightarrow> Manager \<Rightarrow> Key \<Rightarrow> Key \<Rightarrow> PageMergeIterator \<Rightarrow> Record list \<Rightarrow>
   (failure + (Key \<times> SegmentInfo) list \<times> Manager) option" where
  "FlattenChain_load cd opts m base upper pmi addtl =
     (let records = FlattenChain_records cd pmi addtl;
          sequence_number = next_sequence_number m;
          m1 = m\<lparr>next_sequence_number := next_sequence_number m + 1\<rparr>
      in LoadIntoNewPages cd opts m1 sequence_number base upper records)"

text \<open>
  The record that the merge code builds from the page iterator's current entry:
  \<^verbatim>\<open>Record r(key_utils::ExtractHead64(pmi.key()), pmi.value())\<close>.
\<close>

definition page_record :: "Codec \<Rightarrow> Slice \<times> Slice \<Rightarrow> Record" where
  "page_record cd p = (ExtractHead64 cd (fst p), snd p)"

text \<open>
  The specification's reading of "merge with the in-memory batch (newest-wins)": a two-way
  merge in ascending key order of the page records \<open>ps\<close> and the in-memory records
  \<open>rs\<close> in which, on equal keys, the in-memory record is kept and the page record is
  dropped. The source's loops are compared with it below.
\<close>

fun newest_wins_merge :: "Record list \<Rightarrow> Record list \<Rightarrow> Record list" where
  "newest_wins_merge (p # ps) (r # rs) =
     (if fst p = fst r then r # newest_wins_merge ps rs
      else if fst p < fst r then p # newest_wins_merge ps (r # rs)
      else r # newest_wins_merge (p # ps) rs)"
| "newest_wins_merge ps [] = ps"
| "newest_wins_merge [] rs = rs"

text \<open>
  Modelled from the spec: a concrete codec for the worked examples, with "64-bit big-endian
  integer keys" and pages that hold four records. No general statement depends on it.
\<close>

definition ExtractHead64_be :: "Slice \<Rightarrow> Key" where
  "ExtractHead64_be s = foldl (\<lambda>acc b. push_bit 8 acc OR ucast b) 0 (take 8 s)"

definition IntKeyAsSlice_be :: "Key \<Rightarrow> Slice" where
  "IntKeyAsSlice_be k = map (\<lambda>i. ucast (drop_bit (8 * (7 - i)) k)) [0..<8]"

definition big_endian_codec :: Codec where
  "big_endian_codec =
     \<lparr>IntKeyAsSlice = IntKeyAsSlice_be, ExtractHead64 = ExtractHead64_be,
      Page_fits = (\<lambda>page k v. length (page_records page) < 4)\<rparr>"

section \<open>Chain reorganization (db/db_impl_reorg.cc)\<close>

text \<open>
  Modelled from the spec: the page of the page-chain variant (\<^verbatim>\<open>llsm::Page\<close>) is not
  under src. It carries a lower and an upper boundary and the records put into it, kept in
  the order of the \<^verbatim>\<open>Put\<close> calls. A zeroed page has empty boundaries and no records.
\<close>

record ChainPage =
  cp_lower :: Slice
  cp_upper :: Slice
  cp_records :: "(Slice \<times> Slice) list"

definition zero_chain_page :: ChainPage where
  "zero_chain_page = \<lparr>cp_lower = [], cp_upper = [], cp_records = []\<rparr>"

definition ChainPage_new :: "Slice \<Rightarrow> Slice \<Rightarrow> ChainPage" where
  "ChainPage_new lower upper = \<lparr>cp_lower = lower, cp_upper = upper, cp_records = []\<rparr>"

text \<open>
  Modelled from the spec: \<^verbatim>\<open>GetKeyPrefix\<close>. The interval \<open>[L,U)\<close> "defines the shared
  prefix": it is the longest common prefix of the two boundaries.
\<close>

fun common_prefix :: "Slice \<Rightarrow> Slice \<Rightarrow> Slice" where
  "common_prefix (a # as) (b # bs) = (if a = b then a # common_prefix as bs else [])"
| "common_prefix as bs = []"

definition GetKeyPrefix :: "ChainPage \<Rightarrow> Slice" where
  "GetKeyPrefix page = common_prefix (cp_lower page) (cp_upper page)"

text \<open>
  \<^verbatim>\<open>KeyDistHints\<close> with the fields that the reorganization sets, and the options it
  reads. \<^verbatim>\<open>page_fill_pct\<close> is a \<^verbatim>\<open>uint32_t\<close>.
\<close>

record KeyDistHints =
  num_keys :: nat
  page_fill_pct :: "32 word"
  record_size :: nat
  key_size :: nat

record DBOptions =
  key_hints :: KeyDistHints
  max_reorg_fanout :: nat

text \<open>
  The parts of absent code that the reorganization calls and that this development leaves
  open: the constants \<^verbatim>\<open>Page::UsableSize()\<close> and \<^verbatim>\<open>Page::PerRecordMetadataSize()\<close>,
  the number of records per page that \<^verbatim>\<open>KeyDistHints::records_per_page()\<close> computes from
  the record size, the key size and the fill percentage of the hints, and the test whether
  a record still fits into a page.
\<close>

record ReorgEnv =
  UsableSize :: nat
  PerRecordMetadataSize :: nat
  records_per_page_fn :: "nat \<Rightarrow> nat \<Rightarrow> 32 word \<Rightarrow> nat"
  ChainPage_fits :: "ChainPage \<Rightarrow> Slice \<Rightarrow> Slice \<Rightarrow> bool"

definition ChainPage_Put :: "ReorgEnv \<Rightarrow> ChainPage \<Rightarrow> Slice \<Rightarrow> Slice \<Rightarrow> PutStatus \<times> ChainPage" where
  "ChainPage_Put env page k v =
     (if ChainPage_fits env page k v
      then (PutOK, page\<lparr>cp_records := cp_records page @ [(k, v)]\<rparr>)
      else (PutFull, page))"

text \<open>
  \<^verbatim>\<open>size_t\<close> arithmetic is modulo \<open>2^64\<close>; a subtraction wraps around.
\<close>

definition size_t :: "nat \<Rightarrow> nat" where
  "size_t n = n mod 2 ^ 64"

definition size_t_minus :: "nat \<Rightarrow> nat \<Rightarrow> nat" where
  "size_t_minus a b = size_t (size_t a + 2 ^ 64 - size_t b)"

definition records_per_page :: "ReorgEnv \<Rightarrow> KeyDistHints \<Rightarrow> nat" where
  "records_per_page env dist =
     records_per_page_fn env (record_size dist) (key_size dist) (page_fill_pct dist)"

text \<open>
  Modelled from the spec: \<^verbatim>\<open>KeyDistHints::num_pages()\<close> is not under src; the spec gives
  \<open>num_pages = ceil (N / records_per_page)\<close>. A division by zero stops the call.
\<close>

definition num_pages :: "ReorgEnv \<Rightarrow> KeyDistHints \<Rightarrow> failure + nat" where
  "num_pages env dist =
     (if records_per_page env dist = 0 then Inl DivisionByZero
      else Inr ((num_keys dist + records_per_page env dist - 1) div records_per_page env dist))"

text \<open>
  The state that \<^verbatim>\<open>ReorganizeOverflowChain\<close> reads and writes: the page held by every
  buffer frame (by physical page id), the model (the index from lower boundaries to page
  ids), the file manager's next page id, and the \<^verbatim>\<open>UnfixPage\<close> calls made so far with
  their \<^verbatim>\<open>is_dirty\<close> flag. Frame locks are not modelled.
\<close>

record DBImpl =
  frames :: "nat \<Rightarrow> ChainPage"
  model_index :: "Slice \<rightharpoonup> nat"
  next_page_id :: nat
  unfix_log :: "(nat \<times> bool) list"

definition UnfixPage :: "nat \<Rightarrow> bool \<Rightarrow> DBImpl \<Rightarrow> DBImpl" where
  "UnfixPage page_id is_dirty db = db\<lparr>unfix_log := unfix_log db @ [(page_id, is_dirty)]\<rparr>"

text \<open>
  The loop \<^verbatim>\<open>while (chain == nullptr) chain = FixOverflowChain(...)\<close>. What the absent
  \<^verbatim>\<open>FixOverflowChain\<close> answers at each attempt is the parameter \<open>fix_chain\<close>: \<open>None\<close> for
  a null chain, otherwise the page ids of the chain's frames. The loop need not terminate.
\<close>

partial_function (option) FixOverflowChain_retry :: "(nat \<Rightarrow> nat list option) \<Rightarrow> nat \<Rightarrow> nat list option" where
  "FixOverflowChain_retry fix_chain attempt =
     (case fix_chain attempt of
        None \<Rightarrow> FixOverflowChain_retry fix_chain (attempt + 1)
      | Some chain \<Rightarrow> Some chain)"

text \<open>
  The loop \<^verbatim>\<open>while (dist.num_pages() > options_.max_reorg_fanout) ++dist.page_fill_pct\<close>.
  The increment wraps around at \<open>2^32\<close>, and the loop need not terminate.
\<close>

partial_function (option) adjust_fill_pct :: "ReorgEnv \<Rightarrow> nat \<Rightarrow> KeyDistHints \<Rightarrow> (failure + KeyDistHints) option" where
  "adjust_fill_pct env fanout dist =
     (case num_pages env dist of
        Inl e \<Rightarrow> Some (Inl e)
      | Inr n \<Rightarrow>
          if n > fanout
          then adjust_fill_pct env fanout (dist\<lparr>page_fill_pct := page_fill_pct dist + 1\<rparr>)
          else Some (Inr dist))"

text \<open>
  Modelled from the spec: \<^verbatim>\<open>PageMergeIterator pmi(chain)\<close> yields the records of the
  chain's pages "in ascending key order".
\<close>

definition PageMergeIterator_chain :: "ChainPage list \<Rightarrow> (Slice \<times> Slice) list" where
  "PageMergeIterator_chain pages = sort_key fst (concat (map cp_records pages))"

text \<open>
  The first pass over the chain: count the records and collect the key of every
  \<^verbatim>\<open>records_per_page\<close>-th record as a boundary. \<open>rpp\<close> is positive where it is called.
\<close>

fun first_pass :: "nat \<Rightarrow> (Slice \<times> Slice) list \<Rightarrow> nat \<Rightarrow> Slice list \<Rightarrow> nat \<times> Slice list" where
  "first_pass rpp [] record_count boundary_keys = (record_count, boundary_keys)"
| "first_pass rpp (r # pmi) record_count boundary_keys =
     first_pass rpp pmi (record_count + 1)
       (if record_count mod rpp = 0 \<and> record_count > 0
        then boundary_keys @ [fst r] else boundary_keys)"

text \<open>
  The second pass: record number \<open>i\<close> is put into \<^verbatim>\<open>pages.at(i / records_per_page)\<close>;
  the status of \<^verbatim>\<open>Put\<close> is dropped, \<^verbatim>\<open>at\<close> throws when the index is out of range.
\<close>

fun populate :: "ReorgEnv \<Rightarrow> nat \<Rightarrow> (Slice \<times> Slice) list \<Rightarrow> nat \<Rightarrow> ChainPage list \<Rightarrow> failure + ChainPage list" where
  "populate env rpp [] temp_record_count pages = Inr pages"
| "populate env rpp (r # pmi2) temp_record_count pages =
     (if temp_record_count div rpp < length pages
      then populate env rpp pmi2 (temp_record_count + 1)
             (pages[temp_record_count div rpp :=
                snd (ChainPage_Put env (pages ! (temp_record_count div rpp)) (fst r) (snd r))])
      else Inl OutOfRange)"

text \<open>
  Step 4, for \<open>i\<close> from \<open>new_num_pages - 1\<close> down to 0: take the chain's frame \<open>i\<close> or
  allocate and fix a fresh page, copy page \<open>i\<close> into the frame, insert its lower boundary
  into the model and unfix the frame as dirty. Then the surplus frames of the old chain are
  zeroed and unfixed as dirty.
\<close>

fun commit_backwards :: "nat list \<Rightarrow> ChainPage list \<Rightarrow> nat list \<Rightarrow> DBImpl \<Rightarrow> DBImpl" where
  "commit_backwards chain pages [] db = db"
| "commit_backwards chain pages (i # rest) db =
     (let (page_id, db1) =
            (if i < length chain then (chain ! i, db)
             else (next_page_id db, db\<lparr>next_page_id := next_page_id db + 1\<rparr>));
          db2 = db1\<lparr>frames := (frames db1)(page_id := pages ! i)\<rparr>;
          db3 = db2\<lparr>model_index := (model_index db2)(cp_lower (frames db2 page_id) \<mapsto> page_id)\<rparr>
      in commit_backwards chain pages rest (UnfixPage page_id True db3))"

fun clear_surplus :: "nat list \<Rightarrow> nat list \<Rightarrow> DBImpl \<Rightarrow> DBImpl" where
  "clear_surplus chain [] db = db"
| "clear_surplus chain (i # rest) db =
     clear_surplus chain rest
       (UnfixPage (chain ! i) True (db\<lparr>frames := (frames db)(chain ! i := zero_chain_page)\<rparr>))"

text \<open>
  The planning part of \<^verbatim>\<open>ReorganizeOverflowChain\<close> (the estimate of the number of keys,
  the adjustment of the fill percentage, the first pass and the two assertions): the
  records per page, the boundary keys and \<^verbatim>\<open>new_num_pages\<close>.
\<close>

definition effective_record_size :: "DBOptions \<Rightarrow> ChainPage \<Rightarrow> nat" where
  "effective_record_size opts head =
     size_t_minus (record_size (key_hints opts)) (length (GetKeyPrefix head))"

definition max_records_estimate :: "ReorgEnv \<Rightarrow> DBOptions \<Rightarrow> ChainPage \<Rightarrow> failure + nat" where
  "max_records_estimate env opts head =
     (let divisor = size_t (effective_record_size opts head + PerRecordMetadataSize env)
      in if divisor = 0 then Inl DivisionByZero
         else Inr (size_t_minus (UsableSize env) (size_t (2 * record_size (key_hints opts)))
                     div divisor))"

definition plan_reorg ::
  "ReorgEnv \<Rightarrow> DBOptions \<Rightarrow> ChainPage list \<Rightarrow> 32 word \<Rightarrow> (failure + nat \<times> Slice list \<times> nat) option" where
  "plan_reorg env opts chain_pages fill_pct =
     (case chain_pages of
        [] \<Rightarrow> Some (Inl OutOfRange)
      | head # others \<Rightarrow>
          (case max_records_estimate env opts head of
             Inl e \<Rightarrow> Some (Inl e)
           | Inr per_page \<Rightarrow>
               (let dist = \<lparr>num_keys = size_t (length chain_pages * per_page),
                           page_fill_pct = fill_pct,
                           record_size = effective_record_size opts head,
                           key_size = key_size (key_hints opts)\<rparr>
                in case adjust_fill_pct env (max_reorg_fanout opts) dist of
                     None \<Rightarrow> None
                   | Some (Inl e) \<Rightarrow> Some (Inl e)
                   | Some (Inr dist1) \<Rightarrow>
                       (let rpp = records_per_page env dist1;
                            (record_count, keys) =
                              first_pass rpp (PageMergeIterator_chain chain_pages) 0 [cp_lower head]
                        in if \<not> record_count \<le> num_keys dist1 then Some (Inl AssertionFailed)
                           else
                             (let boundary_keys = keys @ [cp_upper head]
                              in case num_pages env (dist1\<lparr>num_keys := record_count\<rparr>) of
                                   Inl e \<Rightarrow> Some (Inl e)
                                 | Inr new_num_pages \<Rightarrow>
                                     if length boundary_keys \<noteq> new_num_pages + 1
                                     then Some (Inl AssertionFailed)
                                     else Some (Inr (rpp, boundary_keys, new_num_pages)))))))"

text \<open>
  \<^verbatim>\<open>DBImpl::ReorganizeOverflowChain\<close>: \<open>None\<close> when one of its loops runs forever, a
  failure when an assertion fails or an exception is thrown, otherwise the status returned
  and the state afterwards. The two log messages are not modelled.
\<close>

definition ReorganizeOverflowChain ::
  "ReorgEnv \<Rightarrow> DBOptions \<Rightarrow> (nat \<Rightarrow> nat list option) \<Rightarrow> 32 word \<Rightarrow> DBImpl \<Rightarrow>
   (failure + Status \<times> DBImpl) option" where
  "ReorganizeOverflowChain env opts fix_chain fill_pct db =
     (case FixOverflowChain_retry fix_chain 0 of
        None \<Rightarrow> None
      | Some chain \<Rightarrow>
          if length chain = 1 then Some (Inr (OK, UnfixPage (chain ! 0) False db))
          else if length chain > max_reorg_fanout opts
          then Some (Inr (InvalidArgument, fold (\<lambda>frame. UnfixPage frame False) chain db))
          else
            (case plan_reorg env opts (map (frames db) chain) fill_pct of
               None \<Rightarrow> None
             | Some (Inl e) \<Rightarrow> Some (Inl e)
             | Some (Inr (rpp, boundary_keys, new_num_pages)) \<Rightarrow>
                 (let old_num_pages = length chain;
                      pages = map (\<lambda>i. ChainPage_new (boundary_keys ! i) (boundary_keys ! (i + 1)))
                                [0..<new_num_pages]
                  in case populate env rpp (PageMergeIterator_chain (map (frames db) chain)) 0 pages of
                       Inl e \<Rightarrow> Some (Inl e)
                     | Inr pages' \<Rightarrow>
                         Some (Inr (OK,
                           clear_surplus chain [new_num_pages..<old_num_pages]
                             (commit_backwards chain pages' (rev [0..<new_num_pages]) db))))))"

text \<open>
  A configuration, a state and a \<^verbatim>\<open>FixOverflowChain\<close> that answers at the first attempt,
  for the worked examples. No general statement depends on them.
\<close>

definition example_env :: ReorgEnv where
  "example_env =
     \<lparr>UsableSize = 100, PerRecordMetadataSize = 0,
      records_per_page_fn = (\<lambda>rs ks pct. ((100 - 2 * ks) div rs) * unat pct div 100),
      ChainPage_fits = (\<lambda>page k v. True)\<rparr>"

definition example_opts :: "nat \<Rightarrow> DBOptions" where
  "example_opts fanout =
     \<lparr>key_hints = \<lparr>num_keys = 0, page_fill_pct = 50, record_size = 10, key_size = 8\<rparr>,
      max_reorg_fanout = fanout\<rparr>"


definition example_db :: DBImpl where
  "example_db =
     \<lparr>frames = (\<lambda>page_id.
        if page_id = 7 then
          \<lparr>cp_lower = [1], cp_upper = [2],
           cp_records = [([1, 0], [10]), ([1, 2], [12]), ([1, 4], [14]), ([1, 6], [16])]\<rparr>
        else if page_id = 9 then
          \<lparr>cp_lower = [1], cp_upper = [2],
           cp_records = [([1, 1], [11]), ([1, 3], [13]), ([1, 5], [15])]\<rparr>
        else zero_chain_page),
      model_index = [[1] \<mapsto> 7], next_page_id = 10, unfix_log = []\<rparr>"

definition fix_at_once :: "nat list \<Rightarrow> nat \<Rightarrow> nat list option" where
  "fix_at_once chain attempt = Some chain"

section \<open>Page lower boundaries (page_grouping/manager_load.cc)\<close>

text \<open>
  Modelled from the spec: the segment builder and its piecewise-linear models are not under
  src. A segment's page assignment "is governed by a linear model (slope + intercept)"
  evaluated in floating point; the model type is left abstract (\<^typ>\<open>'l\<close>) and what the
  code calls on it is a parameter: \<^verbatim>\<open>PageForKey(base, line, page_count, key)\<close>, the
  inversion \<^verbatim>\<open>line.Invert()\<close>, and the application of a line to a page index followed by
  \<^verbatim>\<open>static_cast<Key>\<close>.
\<close>

record 'l PlrEnv =
  PageForKey :: "Key \<Rightarrow> 'l \<Rightarrow> nat \<Rightarrow> Key \<Rightarrow> nat"
  Line_Invert :: "'l \<Rightarrow> 'l"
  Line_to_Key :: "'l \<Rightarrow> nat \<Rightarrow> Key"

text \<open>
  Modelled from the spec: \<^verbatim>\<open>Segment\<close> is not under src. The fields that
  \<^verbatim>\<open>ComputePageLowerBoundaries\<close> reads are the base key, the page count and the optional
  model.
\<close>

record 'l Segment =
  base_key :: Key
  page_count :: nat
  model :: "'l option"

text \<open>
  \<^verbatim>\<open>std::lower_bound\<close> over \<^verbatim>\<open>KeyDomainIterator\<close>. The iterator is its 64-bit
  \<^verbatim>\<open>value_\<close>: \<^verbatim>\<open>++\<close> and \<^verbatim>\<open>+=\<close> add in 64 bits and \<^verbatim>\<open>operator-\<close> subtracts in 64
  bits. The library algorithm reads the distance \<^verbatim>\<open>last - first\<close> into the iterator's
  \<^verbatim>\<open>difference_type\<close>, the signed \<^verbatim>\<open>ptrdiff_t\<close>, and halves it until it is no longer
  positive; \<^verbatim>\<open>cmp\<close> is the comparison with the searched value already supplied.
\<close>

function lower_bound_loop :: "(Key \<Rightarrow> bool) \<Rightarrow> Key \<Rightarrow> int \<Rightarrow> Key" where
  "lower_bound_loop cmp first len =
     (if len > 0 then
        (let half = len div 2;
             middle = first + word_of_int half
         in if cmp middle
            then lower_bound_loop cmp (middle + 1) (len - half - 1)
            else lower_bound_loop cmp first half)
      else first)"
  by pat_completeness auto
termination
  by (relation "measure (\<lambda>(cmp, first, len). nat len)") auto

declare lower_bound_loop.simps [simp del]

definition std_lower_bound :: "(Key \<Rightarrow> bool) \<Rightarrow> Key \<Rightarrow> Key \<Rightarrow> Key" where
  "std_lower_bound cmp first last_key = lower_bound_loop cmp first (sint (last_key - first))"

text \<open>The page that the segment's model assigns to a key.\<close>

definition page_of :: "'l PlrEnv \<Rightarrow> 'l Segment \<Rightarrow> 'l \<Rightarrow> Key \<Rightarrow> nat" where
  "page_of env seg line k = PageForKey env (base_key seg) line (page_count seg) k"

text \<open>
  Steps 1 and 2 of the loop body: the candidate boundary from the inverted model and the
  search bounds \<^verbatim>\<open>(lower, upper)\<close> around it.
\<close>

definition search_bounds :: "'l PlrEnv \<Rightarrow> 'l Segment \<Rightarrow> 'l \<Rightarrow> 'l \<Rightarrow> nat \<Rightarrow> Key \<times> Key" where
  "search_bounds env seg line page_to_key page_idx =
     (let candidate_boundary = Line_to_Key env page_to_key page_idx + base_key seg;
          page_for_candidate = page_of env seg line candidate_boundary
      in if page_for_candidate \<ge> page_idx
         then (Line_to_Key env page_to_key (page_idx - 1) + base_key seg, candidate_boundary)
         else (candidate_boundary, Line_to_Key env page_to_key (page_idx + 1) + base_key seg))"

text \<open>
  Step 3 of the loop body: the binary search between the bounds and the three assertions
  around it.
\<close>

definition page_boundary :: "'l PlrEnv \<Rightarrow> 'l Segment \<Rightarrow> 'l \<Rightarrow> 'l \<Rightarrow> nat \<Rightarrow> failure + Key" where
  "page_boundary env seg line page_to_key page_idx =
     (case search_bounds env seg line page_to_key page_idx of
        (lower, upper) \<Rightarrow>
          if \<not> lower < upper then Inl AssertionFailed
          else
            (let bound = std_lower_bound
                   (\<lambda>key_candidate. page_of env seg line key_candidate < page_idx) lower upper
             in if page_of env seg line bound \<noteq> page_idx then Inl AssertionFailed
                else if \<not> (bound = 0 \<or> page_of env seg line (bound - 1) < page_idx)
                then Inl AssertionFailed
                else Inr bound))"

text \<open>The loop over \<^verbatim>\<open>page_idx\<close>, pushing each boundary at the back.\<close>

fun boundaries_loop ::
  "'l PlrEnv \<Rightarrow> 'l Segment \<Rightarrow> 'l \<Rightarrow> 'l \<Rightarrow> nat list \<Rightarrow> Key list \<Rightarrow> failure + Key list" where
  "boundaries_loop env seg line page_to_key [] lower_boundaries = Inr lower_boundaries"
| "boundaries_loop env seg line page_to_key (page_idx # rest) lower_boundaries =
     (case page_boundary env seg line page_to_key page_idx of
        Inl e \<Rightarrow> Inl e
      | Inr bound \<Rightarrow> boundaries_loop env seg line page_to_key rest (lower_boundaries @ [bound]))"

text \<open>
  \<^verbatim>\<open>ComputePageLowerBoundaries\<close>. A single-page segment returns its base key without
  looking at the model; otherwise the model is dereferenced, which has no defined result
  when it is absent.
\<close>

definition ComputePageLowerBoundaries :: "'l PlrEnv \<Rightarrow> 'l Segment \<Rightarrow> failure + Key list" where
  "ComputePageLowerBoundaries env seg =
     (if page_count seg = 1 then Inr [base_key seg]
      else
        (case model seg of
           None \<Rightarrow> Inl NullModel
         | Some line \<Rightarrow>
             (case boundaries_loop env seg line (Line_Invert env line) [1..<page_count seg]
                     [base_key seg] of
                Inl e \<Rightarrow> Inl e
              | Inr lower_boundaries \<Rightarrow>
                  if length lower_boundaries \<noteq> page_count seg then Inl AssertionFailed
                  else Inr lower_boundaries)))"

text \<open>
  Modelled from the spec: the key that the inverted model gives for a page index,
  \<^verbatim>\<open>M^-1(page_idx) + base_key\<close>, in 64 bits. It is used to say how far off the inverted
  model may be.
\<close>

definition inverse_key :: "'l PlrEnv \<Rightarrow> 'l Segment \<Rightarrow> 'l \<Rightarrow> nat \<Rightarrow> Key" where
  "inverse_key env seg line page_idx =
     Line_to_Key env (Line_Invert env line) page_idx + base_key seg"

text \<open>
  Modelled from the spec: a concrete model for the worked example. A line is its page
  width in keys: a key at distance \<^verbatim>\<open>d\<close> from the base goes to page \<^verbatim>\<open>d div width\<close>,
  clamped to the last page. The inverted line is imprecise: it sends a page index to
  \<^verbatim>\<open>index * width\<close> plus 3 when the index is odd and minus 3 when it is even. No
  general statement depends on it.
\<close>

definition example_plr :: "nat PlrEnv" where
  "example_plr =
     \<lparr>PageForKey = (\<lambda>base w count k.
        if k < base then 0 else min (count - 1) (unat (k - base) div w)),
      Line_Invert = (\<lambda>w. w),
      Line_to_Key = (\<lambda>w x. if odd x then word_of_nat (x * w) + 3 else word_of_nat (x * w) - 3)\<rparr>"

definition example_segment :: "nat Segment" where
  "example_segment = \<lparr>base_key = 100, page_count = 4, model = Some 10\<rparr>"

chapter \<open>Properties\<close>

section \<open>Slice comparison is the lexicographic order\<close>

lemma Slice_compare_less: "Slice_compare a b < 0 \<longleftrightarrow> a < b"
  by (induction a b rule: Slice_compare.induct) auto

lemma Slice_compare_eq: "Slice_compare a b = 0 \<longleftrightarrow> a = b"
  by (induction a b rule: Slice_compare.induct) auto

lemma Slice_compare_greater: "0 < Slice_compare a b \<longleftrightarrow> b < a"
  by (induction a b rule: Slice_compare.induct) auto

section \<open>MemTable comparator\<close>

text \<open>
  Claim C3. The comparator orders two records by the lexicographic order of their keys;
  when the keys are equal the record with the greater sequence number compares less, and
  the result is 0 only for equal keys with equal sequence numbers.
\<close>

theorem Comparator_order:
  "(Comparator r1 r2 < 0 \<longleftrightarrow>
      (rkey r1, rkey r2) \<in> lexord {(u, v). u < v} \<or>
      (rkey r1 = rkey r2 \<and> rsequence_number r2 < rsequence_number r1)) \<and>
   (0 < Comparator r1 r2 \<longleftrightarrow>
      (rkey r2, rkey r1) \<in> lexord {(u, v). u < v} \<or>
      (rkey r1 = rkey r2 \<and> rsequence_number r1 < rsequence_number r2)) \<and>
   (Comparator r1 r2 = 0 \<longleftrightarrow>
      rkey r1 = rkey r2 \<and> rsequence_number r1 = rsequence_number r2)"
proof -
  have lt: "(rkey r1, rkey r2) \<in> lexord {(u, v). u < v} \<longleftrightarrow> Slice_compare (rkey r1) (rkey r2) < 0"
    by (simp add: Slice_compare_less list_less_def)
  have gt: "(rkey r2, rkey r1) \<in> lexord {(u, v). u < v} \<longleftrightarrow> 0 < Slice_compare (rkey r1) (rkey r2)"
    by (simp add: Slice_compare_greater list_less_def)
  have eq: "rkey r1 = rkey r2 \<longleftrightarrow> Slice_compare (rkey r1) (rkey r2) = 0"
    by (simp add: Slice_compare_eq)
  show ?thesis
    unfolding lt gt eq Comparator_def Let_def by auto
qed

section \<open>MemTable writers\<close>

text \<open>
  Claim C10. For every key and value, \<^verbatim>\<open>Put\<close> and \<^verbatim>\<open>Delete\<close> report
  \<^verbatim>\<open>Status::OK\<close>: the insertion path has no failure branch.
\<close>

theorem Put_Delete_OK:
  "fst (Put mt k v) = OK \<and> fst (Delete mt k) = OK"
  by (simp add: Put_def Delete_def InsertImpl_def Let_def)

section \<open>MemTable lookup\<close>

lemma drop_bit_less_imp_less: "unat (drop_bit 8 a) < unat (drop_bit 8 b) \<Longrightarrow> a < (b :: 64 word)"
proof (rule ccontr)
  assume h: "unat (drop_bit 8 a) < unat (drop_bit 8 b)" and n: "\<not> a < b"
  from n have "unat b \<le> unat a" by (simp add: word_le_nat_alt not_less)
  then have "unat b div 2 ^ 8 \<le> unat a div 2 ^ 8" by (rule div_le_mono)
  then have "unat (drop_bit 8 b) \<le> unat (drop_bit 8 a)"
    by (simp add: unat_drop_bit_eq drop_bit_eq_div unat_div)
  with h show False by simp
qed

lemma mask_0xFF: "(0xFF::64 word) = mask 8"
  by (simp add: mask_eq_exp_minus_1)

lemma seq_entry_type: "ucast ((push_bit 8 (w::64 word) OR ucast (t :: 8 word)) AND kEntryTypeMask) = t"
  unfolding mask_0xFF kEntryTypeMask_def
  by (rule bit_word_eqI) (auto simp add: bit_simps)

lemma seq_drop_bit_take_bit: "drop_bit 8 (push_bit 8 (w :: 64 word) OR ucast (t::8 word)) = take_bit 56 w"
  by (rule bit_word_eqI) (auto simp add: bit_simps dest: bit_imp_le_length)

lemma seq_counter: "n < 2 ^ 56 \<Longrightarrow> unat (drop_bit 8 (push_bit 8 (of_nat n :: 64 word) OR ucast (t::8 word))) = n"
  apply (simp only: seq_drop_bit_take_bit)
  apply (simp add: unat_of_nat take_bit_nat_eq_self unsigned_take_bit_eq)
  done

lemma seek_less:
  "Comparator x \<lparr>rkey = k, rvalue = [], rsequence_number = - 1\<rparr> < 0 \<longleftrightarrow> rkey x < k"
proof -
  have "\<not> (- 1 :: 64 word) < rsequence_number x"
    by (simp add: not_less)
  then show ?thesis
    using Slice_compare_less [of "rkey x" k]
    by (auto simp add: Comparator_def Let_def)
qed

lemma Get_find:
  assumes "sorted (map rkey (table mt))"
  shows "Get mt k =
    (case List.find (\<lambda>x. rkey x = k) (table mt) of
       None \<Rightarrow> (NotFound, None)
     | Some x \<Rightarrow> (OK, Some (ucast (rsequence_number x AND kEntryTypeMask), rvalue x)))"
proof -
  have seek: "Iterator_Seek k (GetIterator mt) = dropWhile (\<lambda>x. rkey x < k) (table mt)"
    by (simp add: Iterator_Seek_def SkipList_Seek_def GetIterator_def seek_less)
  have main: "sorted (map rkey xs) \<Longrightarrow>
    (let it = dropWhile (\<lambda>x. rkey x < k) xs in
      if \<not> Iterator_Valid it \<or> Slice_compare k (Iterator_key it) \<noteq> 0
      then (NotFound, None)
      else (OK, Some (Iterator_type it, Iterator_value it))) =
    (case List.find (\<lambda>x. rkey x = k) xs of
       None \<Rightarrow> (NotFound, None)
     | Some x \<Rightarrow> (OK, Some (ucast (rsequence_number x AND kEntryTypeMask), rvalue x)))" for xs
  proof (induction xs)
    case Nil
    then show ?case by (simp add: Iterator_Valid_def)
  next
    case (Cons x xs)
    show ?case
    proof (cases "rkey x < k")
      case True
      with Cons show ?thesis by auto
    next
      case False
      note nlt = this
      show ?thesis
      proof (cases "rkey x = k")
        case True
        then show ?thesis
          by (simp add: Iterator_Valid_def Iterator_key_def Iterator_type_def
              Iterator_value_def Slice_compare_eq)
      next
        case False
        with nlt have lt: "k < rkey x" by simp
        from Cons.prems have "\<forall>y\<in>set xs. rkey x \<le> rkey y" by simp
        with lt have "\<forall>y\<in>set xs. rkey y \<noteq> k" by auto
        then have "List.find (\<lambda>x. rkey x = k) xs = None"
          by (simp add: find_None_iff)
        with False nlt show ?thesis
          by (auto simp add: Iterator_Valid_def Iterator_key_def Slice_compare_eq)
      qed
    qed
  qed
  show ?thesis
    unfolding Get_def seek by (rule main [OF assms])
qed

lemma Comparator_less_le: "Comparator x r < 0 \<Longrightarrow> rkey x \<le> rkey r"
  using Slice_compare_less [of "rkey x" "rkey r"] Slice_compare_eq [of "rkey x" "rkey r"]
  by (auto simp add: Comparator_def Let_def split: if_splits)

lemma Comparator_ge_le: "\<not> Comparator x r < 0 \<Longrightarrow> rkey r \<le> rkey x"
  using Slice_compare_less [of "rkey x" "rkey r"] Slice_compare_eq [of "rkey x" "rkey r"]
  by (auto simp add: Comparator_def Let_def split: if_splits)

lemma set_SkipList_Insert: "set (SkipList_Insert r xs) = insert r (set xs)"
  by (induction xs) auto

lemma sorted_SkipList_Insert:
  "sorted (map rkey xs) \<Longrightarrow> sorted (map rkey (SkipList_Insert r xs))"
proof (induction xs)
  case Nil
  then show ?case by simp
next
  case (Cons x xs)
  show ?case
  proof (cases "Comparator x r < 0")
    case True
    with Cons show ?thesis
      by (auto simp add: set_SkipList_Insert dest: Comparator_less_le)
  next
    case False
    then have "rkey r \<le> rkey x" by (rule Comparator_ge_le)
    with Cons.prems False show ?thesis by auto
  qed
qed

lemma Comparator_fresh:
  "rsequence_number x < rsequence_number r \<Longrightarrow> Comparator x r < 0 \<longleftrightarrow> rkey x < rkey r"
  using Slice_compare_less [of "rkey x" "rkey r"]
  by (auto simp add: Comparator_def Let_def)

lemma find_SkipList_Insert:
  "\<forall>x\<in>set xs. rsequence_number x < rsequence_number r \<Longrightarrow>
   List.find (\<lambda>x. rkey x = k) (SkipList_Insert r xs) =
     (if rkey r = k then Some r else List.find (\<lambda>x. rkey x = k) xs)"
  by (induction xs) (auto simp add: Comparator_fresh)


lemma InsertImpl_step:
  assumes n: "n < 2 ^ 56" and nx: "next_sequence_num mt = of_nat n"
    and srt: "sorted (map rkey (table mt))"
    and old: "\<forall>x\<in>set (table mt). unat (drop_bit 8 (rsequence_number x)) < n"
  shows "next_sequence_num (snd (InsertImpl mt k v t)) = of_nat (Suc n)"
    and "sorted (map rkey (table (snd (InsertImpl mt k v t))))"
    and "\<forall>x\<in>set (table (snd (InsertImpl mt k v t))). unat (drop_bit 8 (rsequence_number x)) < Suc n"
    and "List.find (\<lambda>x. rkey x = k') (table (snd (InsertImpl mt k v t))) =
       (if k = k' then Some \<lparr>rkey = k, rvalue = v, rsequence_number = push_bit 8 (of_nat n) OR ucast t\<rparr>
        else List.find (\<lambda>x. rkey x = k') (table mt))"
proof -
  let ?r = "\<lparr>rkey = k, rvalue = v, rsequence_number = push_bit 8 (of_nat n) OR ucast t\<rparr>"
  have tbl: "table (snd (InsertImpl mt k v t)) = SkipList_Insert ?r (table mt)"
    by (simp add: InsertImpl_def nx)
  have sq: "unat (drop_bit 8 (rsequence_number ?r)) = n"
    unfolding MemTable_Record.select_convs by (rule seq_counter [OF n])
  have fresh: "\<forall>x\<in>set (table mt). rsequence_number x < rsequence_number ?r"
  proof
    fix x assume "x \<in> set (table mt)"
    with old have "unat (drop_bit 8 (rsequence_number x)) < unat (drop_bit 8 (rsequence_number ?r))"
      by (simp only: sq)
    then show "rsequence_number x < rsequence_number ?r" by (rule drop_bit_less_imp_less)
  qed
  show "next_sequence_num (snd (InsertImpl mt k v t)) = of_nat (Suc n)"
    by (simp add: InsertImpl_def nx)
  show "sorted (map rkey (table (snd (InsertImpl mt k v t))))"
    unfolding tbl using srt by (rule sorted_SkipList_Insert)
  show "\<forall>x\<in>set (table (snd (InsertImpl mt k v t))). unat (drop_bit 8 (rsequence_number x)) < Suc n"
    unfolding tbl set_SkipList_Insert using old sq by (auto simp add: less_Suc_eq)
  show "List.find (\<lambda>x. rkey x = k') (table (snd (InsertImpl mt k v t))) =
       (if k = k' then Some ?r else List.find (\<lambda>x. rkey x = k') (table mt))"
    unfolding tbl using find_SkipList_Insert [OF fresh, of k'] by simp
qed

lemma last_op_snoc:
  "last_op k (ops @ [op]) = (if op_key op = k then Some op else last_op k ops)"
  by (simp add: last_op_def)

lemma run_ops_snoc: "run_ops (ops @ [op]) = apply_op (run_ops ops) op"
  by (simp add: run_ops_def)

lemma run_ops_state:
  "length ops \<le> 2 ^ 56 \<Longrightarrow>
     next_sequence_num (run_ops ops) = of_nat (length ops) \<and>
     sorted (map rkey (table (run_ops ops))) \<and>
     (\<forall>x\<in>set (table (run_ops ops)). unat (drop_bit 8 (rsequence_number x)) < length ops) \<and>
     (\<forall>k. (case List.find (\<lambda>x. rkey x = k) (table (run_ops ops)) of
             None \<Rightarrow> (NotFound, None)
           | Some x \<Rightarrow> (OK, Some (ucast (rsequence_number x AND kEntryTypeMask), rvalue x))) =
          expected_get (last_op k ops))"
proof (induction ops rule: rev_induct)
  case Nil
  show ?case by (simp add: run_ops_def MemTable_new_def last_op_def)
next
  case (snoc op ops)
  from snoc.prems have n: "length ops < 2 ^ 56" and le: "length ops \<le> 2 ^ 56" by simp_all
  from snoc.IH [OF le] have
    nx: "next_sequence_num (run_ops ops) = of_nat (length ops)" and
    srt: "sorted (map rkey (table (run_ops ops)))" and
    old: "\<forall>x\<in>set (table (run_ops ops)). unat (drop_bit 8 (rsequence_number x)) < length ops" and
    get: "\<And>k. (case List.find (\<lambda>x. rkey x = k) (table (run_ops ops)) of
             None \<Rightarrow> (NotFound, None)
           | Some x \<Rightarrow> (OK, Some (ucast (rsequence_number x AND kEntryTypeMask), rvalue x))) =
          expected_get (last_op k ops)"
    by simp_all
  note step = InsertImpl_step [OF n nx srt old]
  show ?case
  proof (cases op)
    case (PutOp k v)
    then have ap: "run_ops (ops @ [op]) = snd (InsertImpl (run_ops ops) k v kWrite)"
      by (simp add: run_ops_snoc Put_def)
    show ?thesis
      unfolding ap using step [where k = k and v = v and t = kWrite] get PutOp
      by (simp add: last_op_snoc seq_entry_type)
  next
    case (DeleteOp k)
    then have ap: "run_ops (ops @ [op]) = snd (InsertImpl (run_ops ops) k [] kDelete)"
      by (simp add: run_ops_snoc Delete_def)
    show ?thesis
      unfolding ap using step [where k = k and v = "[]" and t = kDelete] get DeleteOp
      by (simp add: last_op_snoc seq_entry_type)
  qed
qed

text \<open>
  Claim C2. On a MemTable built from a fresh one by any trace of \<^verbatim>\<open>Put\<close> and
  \<^verbatim>\<open>Delete\<close> calls, \<^verbatim>\<open>Get(k)\<close> reports the type and value of the most recent
  record written for \<open>k\<close>: a tombstone is reported as \<open>(kDelete, [])\<close> with status OK,
  and the status is NotFound exactly when the trace never wrote \<open>k\<close>. The counter
  \<^verbatim>\<open>next_sequence_num_\<close> is shifted left by 8 in 64 bits, so the trace is taken to have
  at most \<open>2^56\<close> operations (the counter values that survive the shift).
\<close>

theorem Get_latest:
  assumes "length ops \<le> 2 ^ 56"
  shows "Get (run_ops ops) k = expected_get (last_op k ops) \<and>
         (fst (Get (run_ops ops) k) = NotFound \<longleftrightarrow> k \<notin> op_key ` set ops)"
proof -
  from run_ops_state [OF assms] have
    srt: "sorted (map rkey (table (run_ops ops)))" and
    get: "(case List.find (\<lambda>x. rkey x = k) (table (run_ops ops)) of
             None \<Rightarrow> (NotFound, None)
           | Some x \<Rightarrow> (OK, Some (ucast (rsequence_number x AND kEntryTypeMask), rvalue x))) =
          expected_get (last_op k ops)"
    by simp_all
  have eq: "Get (run_ops ops) k = expected_get (last_op k ops)"
    using Get_find [OF srt, of k] get by simp
  have "fst (expected_get (last_op k ops)) = NotFound \<longleftrightarrow> last_op k ops = None"
    by (cases "last_op k ops" rule: expected_get.cases) auto
  also have "\<dots> \<longleftrightarrow> k \<notin> op_key ` set ops"
    by (auto simp add: last_op_def find_None_iff)
  finally show ?thesis using eq by simp
qed

theorem Get_latest_witness:
  "length [PutOp [0, 0, 0, 0, 0, 0, 0, 5] [97], PutOp [0, 0, 0, 0, 0, 0, 0, 5] [98],
           DeleteOp [0, 0, 0, 0, 0, 0, 0, 5], PutOp [0, 0, 0, 0, 0, 0, 0, 7] [99]] \<le> (2 :: nat) ^ 56 \<and>
   Get (run_ops [PutOp [0, 0, 0, 0, 0, 0, 0, 5] [97], PutOp [0, 0, 0, 0, 0, 0, 0, 5] [98],
                 DeleteOp [0, 0, 0, 0, 0, 0, 0, 5], PutOp [0, 0, 0, 0, 0, 0, 0, 7] [99]])
       [0, 0, 0, 0, 0, 0, 0, 5] = (OK, Some (kDelete, [])) \<and>
   Get (run_ops [PutOp [0, 0, 0, 0, 0, 0, 0, 5] [97], PutOp [0, 0, 0, 0, 0, 0, 0, 5] [98],
                 DeleteOp [0, 0, 0, 0, 0, 0, 0, 5], PutOp [0, 0, 0, 0, 0, 0, 0, 7] [99]])
       [0, 0, 0, 0, 0, 0, 0, 7] = (OK, Some (kWrite, [99])) \<and>
   fst (Get (run_ops [PutOp [0, 0, 0, 0, 0, 0, 0, 5] [97], PutOp [0, 0, 0, 0, 0, 0, 0, 5] [98],
                 DeleteOp [0, 0, 0, 0, 0, 0, 0, 5], PutOp [0, 0, 0, 0, 0, 0, 0, 7] [99]])
       [0, 0, 0, 0, 0, 0, 0, 6]) = NotFound"
proof -
  let ?ops = "[PutOp [0, 0, 0, 0, 0, 0, 0, 5] [97], PutOp [0, 0, 0, 0, 0, 0, 0, 5] [98],
               DeleteOp [0, 0, 0, 0, 0, 0, 0, 5], PutOp [0, 0, 0, 0, 0, 0, 0, 7] [99]]"
  have len: "length ?ops \<le> (2 :: nat) ^ 56" by simp
  show ?thesis
    using len Get_latest [OF len, of "[0, 0, 0, 0, 0, 0, 0, 5]"]
      Get_latest [OF len, of "[0, 0, 0, 0, 0, 0, 0, 7]"]
      Get_latest [OF len, of "[0, 0, 0, 0, 0, 0, 0, 6]"]
    by (simp add: last_op_def)
qed


section \<open>Newest-wins merge\<close>

lemma newest_wins_merge_Nil: "newest_wins_merge [] rs = rs"
  by (cases rs) simp_all

lemma set_newest_wins_merge: "set (newest_wins_merge ps rs) \<subseteq> set ps \<union> set rs"
  by (induction ps rs rule: newest_wins_merge.induct) auto

lemma newest_wins_merge_ge:
  assumes "\<forall>q\<in>set ps. k \<le> fst q" and "\<forall>q\<in>set rs. k \<le> fst q"
  shows "\<forall>q\<in>set (newest_wins_merge ps rs). k \<le> fst q"
  using assms set_newest_wins_merge [of ps rs] by blast

lemma newest_wins_merge_gt:
  assumes "\<forall>q\<in>set ps. k < fst q" and "\<forall>q\<in>set rs. k < fst q"
  shows "\<forall>q\<in>set (newest_wins_merge ps rs). k < fst q"
  using assms set_newest_wins_merge [of ps rs] by blast

lemma sorted_newest_wins_merge:
  "sorted (map fst ps) \<Longrightarrow> sorted (map fst rs) \<Longrightarrow> sorted (map fst (newest_wins_merge ps rs))"
proof (induction ps rs rule: newest_wins_merge.induct)
  case (1 p ps r rs)
  from "1.prems" have ps: "sorted (map fst ps)" and rs: "sorted (map fst rs)"
    and p_le: "\<forall>q\<in>set ps. fst p \<le> fst q" and r_le: "\<forall>q\<in>set rs. fst r \<le> fst q"
    by auto
  consider (eq) "fst p = fst r" | (lt) "fst p < fst r" | (gt) "fst r < fst p"
    by (rule linorder_cases) auto
  then show ?case
  proof cases
    case eq
    have "\<forall>q\<in>set (newest_wins_merge ps rs). fst r \<le> fst q"
      using p_le r_le eq by (intro newest_wins_merge_ge) auto
    with eq "1.IH"(1) [OF eq ps rs] show ?thesis by simp
  next
    case lt
    then have ne: "fst p \<noteq> fst r" by simp
    have "\<forall>q\<in>set (newest_wins_merge ps (r # rs)). fst p \<le> fst q"
      using p_le r_le lt by (intro newest_wins_merge_ge) auto
    with ne lt "1.IH"(2) [OF ne lt ps "1.prems"(2)] show ?thesis by simp
  next
    case gt
    then have ne: "fst p \<noteq> fst r" and nlt: "\<not> fst p < fst r" by auto
    have "\<forall>q\<in>set (newest_wins_merge (p # ps) rs). fst r \<le> fst q"
      using p_le r_le gt by (intro newest_wins_merge_ge) auto
    with ne nlt "1.IH"(3) [OF ne nlt "1.prems"(1) rs] show ?thesis by simp
  qed
qed simp_all

lemma strict_sorted_newest_wins_merge:
  "sorted_wrt (<) (map fst ps) \<Longrightarrow> sorted_wrt (<) (map fst rs) \<Longrightarrow>
   sorted_wrt (<) (map fst (newest_wins_merge ps rs))"
proof (induction ps rs rule: newest_wins_merge.induct)
  case (1 p ps r rs)
  from "1.prems" have ps: "sorted_wrt (<) (map fst ps)" and rs: "sorted_wrt (<) (map fst rs)"
    and p_lt: "\<forall>q\<in>set ps. fst p < fst q" and r_lt: "\<forall>q\<in>set rs. fst r < fst q"
    by auto
  consider (eq) "fst p = fst r" | (lt) "fst p < fst r" | (gt) "fst r < fst p"
    by (rule linorder_cases) auto
  then show ?case
  proof cases
    case eq
    have "\<forall>q\<in>set (newest_wins_merge ps rs). fst r < fst q"
      using p_lt r_lt eq by (intro newest_wins_merge_gt) auto
    with eq "1.IH"(1) [OF eq ps rs] show ?thesis by simp
  next
    case lt
    then have ne: "fst p \<noteq> fst r" by simp
    have "\<forall>q\<in>set (newest_wins_merge ps (r # rs)). fst p < fst q"
      using p_lt r_lt lt by (intro newest_wins_merge_gt) auto
    with ne lt "1.IH"(2) [OF ne lt ps "1.prems"(2)] show ?thesis by simp
  next
    case gt
    then have ne: "fst p \<noteq> fst r" and nlt: "\<not> fst p < fst r" by auto
    have "\<forall>q\<in>set (newest_wins_merge (p # ps) rs). fst r < fst q"
      using p_lt r_lt gt by (intro newest_wins_merge_gt) auto
    with ne nlt "1.IH"(3) [OF ne nlt "1.prems"(1) rs] show ?thesis by simp
  qed
qed simp_all

lemma mset_newest_wins_merge:
  "sorted_wrt (<) (map fst ps) \<Longrightarrow> sorted (map fst rs) \<Longrightarrow>
   mset (newest_wins_merge ps rs) =
     mset rs + mset (filter (\<lambda>p. fst p \<notin> fst ` set rs) ps)"
proof (induction ps rs rule: newest_wins_merge.induct)
  case (1 p ps r rs)
  from "1.prems" have ps: "sorted_wrt (<) (map fst ps)" and rs: "sorted (map fst rs)"
    and p_lt: "\<forall>q\<in>set ps. fst p < fst q" and r_le: "\<forall>q\<in>set rs. fst r \<le> fst q"
    by auto
  consider (eq) "fst p = fst r" | (lt) "fst p < fst r" | (gt) "fst r < fst p"
    by (rule linorder_cases) auto
  then show ?case
  proof cases
    case eq
    have "filter (\<lambda>p. fst p \<notin> fst ` set (r # rs)) ps = filter (\<lambda>p. fst p \<notin> fst ` set rs) ps"
      using p_lt eq by (intro filter_cong) auto
    with eq "1.IH"(1) [OF eq ps rs] show ?thesis by simp
  next
    case lt
    have "fst p \<notin> fst ` set (r # rs)" using lt r_le by auto
    with lt "1.IH"(2) [OF _ lt ps "1.prems"(2)] show ?thesis by simp
  next
    case gt
    then have ne: "fst p \<noteq> fst r" and nlt: "\<not> fst p < fst r" by auto
    have f: "filter (\<lambda>q. fst q \<notin> fst ` set (r # rs)) (p # ps) = filter (\<lambda>q. fst q \<notin> fst ` set rs) (p # ps)"
      using p_lt gt by (intro filter_cong) auto
    have m: "newest_wins_merge (p # ps) (r # rs) = r # newest_wins_merge (p # ps) rs"
      using ne nlt by simp
    have "mset (newest_wins_merge (p # ps) (r # rs)) = add_mset r (mset (newest_wins_merge (p # ps) rs))"
      unfolding m by simp
    also have "\<dots> = add_mset r (mset rs + mset (filter (\<lambda>q. fst q \<notin> fst ` set rs) (p # ps)))"
      using "1.IH"(3) [OF ne nlt "1.prems"(1) rs] by (simp only:)
    also have "\<dots> = mset (r # rs) + mset (filter (\<lambda>q. fst q \<notin> fst ` set (r # rs)) (p # ps))"
      unfolding f by simp
    finally show ?thesis .
  qed
qed simp_all

lemma big_endian_keys:
  "ExtractHead64 big_endian_codec [0, 0, 0, 0, 0, 0, 3, 232] = 1000"
  "ExtractHead64 big_endian_codec [0, 0, 0, 0, 0, 0, 3, 242] = 1010"
  by (simp_all add: big_endian_codec_def ExtractHead64_be_def)

section \<open>PagePlusRecordMerger\<close>

lemma GetNext_all_step:
  "HasRecords m \<Longrightarrow> GetNext cd m = Inr (r, m') \<Longrightarrow> GetNext_all cd m = r # GetNext_all cd m'"
  by (subst GetNext_all.simps) simp

lemma GetNext_all_done: "\<not> HasRecords m \<Longrightarrow> GetNext_all cd m = []"
  by (subst GetNext_all.simps) simp

lemma GetNext_all_eq:
  "GetNext_all cd m = newest_wins_merge (map (page_record cd) (m_pmi m)) (m_it m)"
proof (induction cd m rule: GetNext_all.induct)
  case (1 cd m)
  show ?case
  proof (cases "m_pmi m")
    case Nil
    note pn = this
    show ?thesis
    proof (cases "m_it m")
      case Nil
      with pn have "\<not> HasRecords m" by (simp add: HasRecords_def HasPageRecords_def)
      then show ?thesis using pn Nil by (simp add: GetNext_all_done)
    next
      case (Cons r rs)
      have h: "HasRecords m" using Cons by (simp add: HasRecords_def)
      have g: "GetNext cd m = Inr (r, m\<lparr>m_it := rs\<rparr>)"
        using pn Cons by (simp add: GetNext_def HasRecords_def HasPageRecords_def)
      show ?thesis
        unfolding GetNext_all_step [OF h g] "1.IH" [OF h g refl]
        using pn Cons by (simp add: newest_wins_merge_Nil)
    qed
  next
    case (Cons p ps)
    note pc = this
    have h: "HasRecords m" using Cons by (simp add: HasRecords_def HasPageRecords_def)
    show ?thesis
    proof (cases "m_it m")
      case Nil
      have g: "GetNext cd m = Inr (page_record cd p, m\<lparr>m_pmi := ps\<rparr>)"
        using pc Nil by (simp add: GetNext_def HasRecords_def HasPageRecords_def page_record_def)
      show ?thesis
        unfolding GetNext_all_step [OF h g] "1.IH" [OF h g refl]
        using pc Nil by simp
    next
      case (Cons r rs)
      consider (eq) "fst (page_record cd p) = fst r" | (lt) "fst (page_record cd p) < fst r"
        | (gt) "fst r < fst (page_record cd p)"
        by (rule linorder_cases) auto
      then show ?thesis
      proof cases
        case eq
        have g: "GetNext cd m = Inr (r, m\<lparr>m_it := rs, m_pmi := ps\<rparr>)"
          using pc Cons eq
          by (simp add: GetNext_def HasRecords_def HasPageRecords_def page_record_def Let_def)
        show ?thesis
          unfolding GetNext_all_step [OF h g] "1.IH" [OF h g refl]
          using pc Cons eq by simp
      next
        case lt
        then have nle: "\<not> fst r \<le> ExtractHead64 cd (fst p)"
          and ne: "fst (page_record cd p) \<noteq> fst r"
          by (simp_all add: page_record_def not_le)
        have g: "GetNext cd m = Inr (page_record cd p, m\<lparr>m_pmi := ps\<rparr>)"
          using pc Cons nle
          by (simp add: GetNext_def HasRecords_def HasPageRecords_def page_record_def Let_def)
        show ?thesis
          unfolding GetNext_all_step [OF h g] "1.IH" [OF h g refl]
          using pc Cons lt ne by simp
      next
        case gt
        then have ne: "fst (page_record cd p) \<noteq> fst r"
          and nlt: "\<not> fst (page_record cd p) < fst r"
          and le: "fst r \<le> ExtractHead64 cd (fst p)"
          and ne': "fst r \<noteq> ExtractHead64 cd (fst p)"
          by (simp_all add: page_record_def)
        have "m\<lparr>m_it := rs, m_pmi := p # ps\<rparr> = m\<lparr>m_it := rs\<rparr>"
          using pc by (cases m) simp
        then have g: "GetNext cd m = Inr (r, m\<lparr>m_it := rs\<rparr>)"
          using pc Cons le ne'
          by (simp add: GetNext_def HasRecords_def HasPageRecords_def Let_def)
        show ?thesis
          unfolding GetNext_all_step [OF h g] "1.IH" [OF h g refl]
          using pc Cons ne nlt by simp
      qed
    qed
  qed
qed

text \<open>
  Claim C7. When both the page iterator and the in-memory range hold records,
  \<^verbatim>\<open>GetNext\<close> returns the record with the smaller key; on equal keys it returns the
  in-memory record and advances both sides, otherwise it advances only the side it took
  the record from. Hence, for page records in strictly ascending key order and an
  in-memory range in ascending key order, the records that repeated \<^verbatim>\<open>GetNext\<close> calls
  hand out are in ascending key order and are the in-memory records together with the
  page records whose key no in-memory record has.
\<close>

theorem GetNext_merge:
  "(m_pmi m = p # ps \<and> m_it m = r # rs \<longrightarrow>
      GetNext cd m =
        Inr (if fst r \<le> ExtractHead64 cd (fst p) then r else (ExtractHead64 cd (fst p), snd p),
             m\<lparr>m_it := (if fst r \<le> ExtractHead64 cd (fst p) then rs else r # rs),
               m_pmi := (if ExtractHead64 cd (fst p) \<le> fst r then ps else p # ps)\<rparr>)) \<and>
   (sorted_wrt (<) (map (fst \<circ> page_record cd) (m_pmi m)) \<and> sorted (map fst (m_it m)) \<longrightarrow>
      sorted (map fst (GetNext_all cd m)) \<and>
      mset (GetNext_all cd m) =
        mset (m_it m) +
        mset (filter (\<lambda>q. fst q \<notin> fst ` set (m_it m)) (map (page_record cd) (m_pmi m))))"
proof (intro conjI impI)
  assume a: "m_pmi m = p # ps \<and> m_it m = r # rs"
  have "m\<lparr>m_it := rs, m_pmi := p # ps\<rparr> = m\<lparr>m_it := rs\<rparr>"
    using a by (cases m) simp
  moreover have "m\<lparr>m_pmi := ps\<rparr> = m\<lparr>m_it := r # rs, m_pmi := ps\<rparr>"
    using a by (cases m) simp
  ultimately show "GetNext cd m =
        Inr (if fst r \<le> ExtractHead64 cd (fst p) then r else (ExtractHead64 cd (fst p), snd p),
             m\<lparr>m_it := (if fst r \<le> ExtractHead64 cd (fst p) then rs else r # rs),
               m_pmi := (if ExtractHead64 cd (fst p) \<le> fst r then ps else p # ps)\<rparr>)"
    using a by (auto simp add: GetNext_def HasRecords_def HasPageRecords_def Let_def)
next
  assume s: "sorted_wrt (<) (map (fst \<circ> page_record cd) (m_pmi m)) \<and> sorted (map fst (m_it m))"
  then have d: "sorted_wrt (<) (map fst (map (page_record cd) (m_pmi m)))" by simp
  then have "sorted (map fst (map (page_record cd) (m_pmi m)))"
    by (rule strict_sorted_imp_sorted)
  with s show "sorted (map fst (GetNext_all cd m))"
    unfolding GetNext_all_eq by (intro sorted_newest_wins_merge) simp_all
  from d s show "mset (GetNext_all cd m) =
        mset (m_it m) +
        mset (filter (\<lambda>q. fst q \<notin> fst ` set (m_it m)) (map (page_record cd) (m_pmi m)))"
    unfolding GetNext_all_eq by (intro mset_newest_wins_merge) simp_all
qed

theorem GetNext_merge_witness:
  "m_pmi \<lparr>m_pmi = [([0, 0, 0, 0, 0, 0, 3, 242], [118, 49]), ([0, 0, 0, 0, 0, 0, 3, 252], [118, 51])],
          m_it = [(1010, [118, 49, 39]), (1020, [118, 50])]\<rparr> =
     ([0, 0, 0, 0, 0, 0, 3, 242], [118, 49]) # [([0, 0, 0, 0, 0, 0, 3, 252], [118, 51])] \<and>
   GetNext big_endian_codec
     \<lparr>m_pmi = [([0, 0, 0, 0, 0, 0, 3, 242], [118, 49]), ([0, 0, 0, 0, 0, 0, 3, 252], [118, 51])],
      m_it = [(1010, [118, 49, 39]), (1020, [118, 50])]\<rparr> =
     Inr ((1010, [118, 49, 39]),
          \<lparr>m_pmi = [([0, 0, 0, 0, 0, 0, 3, 252], [118, 51])], m_it = [(1020, [118, 50])]\<rparr>) \<and>
   sorted (map fst (GetNext_all big_endian_codec
     \<lparr>m_pmi = [([0, 0, 0, 0, 0, 0, 3, 242], [118, 49]), ([0, 0, 0, 0, 0, 0, 3, 252], [118, 51])],
      m_it = [(1010, [118, 49, 39]), (1020, [118, 50])]\<rparr>))"
proof -
  let ?p = "([0, 0, 0, 0, 0, 0, 3, 242], [118, 49]) :: Slice \<times> Slice"
  let ?ps = "[([0, 0, 0, 0, 0, 0, 3, 252], [118, 51])] :: PageMergeIterator"
  let ?r = "(1010, [118, 49, 39]) :: Record"
  let ?rs = "[(1020, [118, 50])] :: Record list"
  let ?m = "\<lparr>m_pmi = ?p # ?ps, m_it = ?r # ?rs\<rparr>"
  have k: "ExtractHead64 big_endian_codec [0, 0, 0, 0, 0, 0, 3, 252] = 1020"
    by (simp add: big_endian_codec_def ExtractHead64_be_def)
  have a: "m_pmi ?m = ?p # ?ps \<and> m_it ?m = ?r # ?rs" by simp
  have s: "sorted_wrt (<) (map (fst \<circ> page_record big_endian_codec) (m_pmi ?m)) \<and>
           sorted (map fst (m_it ?m))"
    by (simp add: page_record_def big_endian_keys k)
  from GetNext_merge [of ?m ?p ?ps ?r ?rs big_endian_codec] a s
  show ?thesis by (simp add: big_endian_keys)
qed


section \<open>FlattenChain\<close>

lemma FlattenChain_pages_eq:
  "FlattenChain_pages cd ps records = records @ map (page_record cd) ps"
  by (induction ps arbitrary: records) (simp_all add: page_record_def)

lemma FlattenChain_memory_eq: "FlattenChain_memory rs records = records @ rs"
  by (induction rs arbitrary: records) simp_all

lemma FlattenChain_both_eq:
  "FlattenChain_both cd ps rs records = (ps', rs', records') \<Longrightarrow>
   records' @ map (page_record cd) ps' @ rs' =
     records @ newest_wins_merge (map (page_record cd) ps) rs"
proof (induction cd ps rs records rule: FlattenChain_both.induct)
  case (1 cd p ps r rs records)
  then show ?case
    by (auto simp add: Let_def page_record_def split: if_splits)
qed (auto simp add: newest_wins_merge_Nil)

lemma FlattenChain_both_rest:
  "FlattenChain_both cd ps rs records = (ps', rs', records') \<Longrightarrow> ps' = [] \<or> rs' = []"
  by (induction cd ps rs records rule: FlattenChain_both.induct)
     (auto simp add: Let_def split: if_splits)

lemma FlattenChain_records_eq:
  "FlattenChain_records cd pmi addtl = newest_wins_merge (map (page_record cd) pmi) addtl"
proof -
  obtain ps' rs' records' where b: "FlattenChain_both cd pmi addtl [] = (ps', rs', records')"
    by (cases "FlattenChain_both cd pmi addtl []") auto
  from FlattenChain_both_eq [OF b]
  have "records' @ map (page_record cd) ps' @ rs' = newest_wins_merge (map (page_record cd) pmi) addtl"
    by simp
  then show ?thesis
    by (simp add: FlattenChain_records_def b FlattenChain_pages_eq FlattenChain_memory_eq)
qed


text \<open>
  Claim C4. For a chain whose records the page iterator yields in strictly ascending key
  order and an in-memory batch in ascending key order, the vector \<^verbatim>\<open>records\<close> that
  \<^verbatim>\<open>FlattenChain\<close> builds for \<^verbatim>\<open>LoadIntoNewPages\<close> is in ascending key order and
  holds exactly the batch records and those chain records whose key is not in the batch:
  on a collision the batch record supersedes the chain record, and nothing else is lost
  or duplicated (no key occurs twice when the batch has no duplicate keys).
\<close>

theorem FlattenChain_records_merge:
  assumes "sorted_wrt (<) (map (fst \<circ> page_record cd) pmi)" and "sorted (map fst addtl)"
  shows "sorted (map fst (FlattenChain_records cd pmi addtl)) \<and>
         mset (FlattenChain_records cd pmi addtl) =
           mset addtl + mset (filter (\<lambda>q. fst q \<notin> fst ` set addtl) (map (page_record cd) pmi)) \<and>
         (distinct (map fst addtl) \<longrightarrow> distinct (map fst (FlattenChain_records cd pmi addtl)))"
proof -
  from assms(1) have d: "sorted_wrt (<) (map fst (map (page_record cd) pmi))" by simp
  then have w: "sorted (map fst (map (page_record cd) pmi))"
    by (rule strict_sorted_imp_sorted)
  have 1: "sorted (map fst (FlattenChain_records cd pmi addtl))"
    unfolding FlattenChain_records_eq using w assms(2) by (rule sorted_newest_wins_merge)
  have 2: "mset (FlattenChain_records cd pmi addtl) =
           mset addtl + mset (filter (\<lambda>q. fst q \<notin> fst ` set addtl) (map (page_record cd) pmi))"
    unfolding FlattenChain_records_eq using d assms(2) by (rule mset_newest_wins_merge)
  have 3: "distinct (map fst (FlattenChain_records cd pmi addtl))" if "distinct (map fst addtl)"
  proof -
    from that assms(2) have "sorted_wrt (<) (map fst addtl)"
      by (simp add: strict_sorted_iff)
    with d have "sorted_wrt (<) (map fst (FlattenChain_records cd pmi addtl))"
      unfolding FlattenChain_records_eq by (rule strict_sorted_newest_wins_merge)
    then show ?thesis by (simp add: strict_sorted_iff)
  qed
  from 1 2 3 show ?thesis by blast
qed

theorem FlattenChain_records_merge_witness:
  "sorted_wrt (<) (map (fst \<circ> page_record big_endian_codec)
      [([0, 0, 0, 0, 0, 0, 3, 232], [118, 48]), ([0, 0, 0, 0, 0, 0, 3, 242], [118, 49])]) \<and>
   sorted (map fst [(1010 :: Key, [118, 49, 39]), (1020, [118, 50])]) \<and>
   FlattenChain_records big_endian_codec
      [([0, 0, 0, 0, 0, 0, 3, 232], [118, 48]), ([0, 0, 0, 0, 0, 0, 3, 242], [118, 49])]
      [(1010, [118, 49, 39]), (1020, [118, 50])] =
     [(1000, [118, 48]), (1010, [118, 49, 39]), (1020, [118, 50])] \<and>
   sorted (map fst (FlattenChain_records big_endian_codec
      [([0, 0, 0, 0, 0, 0, 3, 232], [118, 48]), ([0, 0, 0, 0, 0, 0, 3, 242], [118, 49])]
      [(1010, [118, 49, 39]), (1020, [118, 50])])) \<and>
   distinct (map fst (FlattenChain_records big_endian_codec
      [([0, 0, 0, 0, 0, 0, 3, 232], [118, 48]), ([0, 0, 0, 0, 0, 0, 3, 242], [118, 49])]
      [(1010, [118, 49, 39]), (1020, [118, 50])]))"
proof -
  let ?disk = "[([0, 0, 0, 0, 0, 0, 3, 232], [118, 48]), ([0, 0, 0, 0, 0, 0, 3, 242], [118, 49])]
                 :: PageMergeIterator"
  let ?batch = "[(1010, [118, 49, 39]), (1020, [118, 50])] :: Record list"
  have d: "sorted_wrt (<) (map (fst \<circ> page_record big_endian_codec) ?disk)"
    by (simp add: page_record_def big_endian_keys)
  have b: "sorted (map fst ?batch)" by simp
  have e: "FlattenChain_records big_endian_codec ?disk ?batch =
      [(1000, [118, 48]), (1010, [118, 49, 39]), (1020, [118, 50])]"
    by (simp add: FlattenChain_records_def big_endian_keys)
  from FlattenChain_records_merge [OF d b] d b e show ?thesis by simp
qed


section \<open>LoadIntoNewPages\<close>

lemma write_new_page_writes:
  "write_new_page sq buf m = (seg, m') \<Longrightarrow>
   disk_writes m' = disk_writes m @ [(seg, ClearAllOverflows (SetSequenceNumber sq buf))]"
  by (auto simp add: write_new_page_def Let_def AllocateSegment_def
      split: prod.splits option.splits)

lemma LoadIntoPage_puts_records:
  "LoadIntoPage_puts cd page rs = (PutOK, page') \<Longrightarrow>
   page_records page' = page_records page @ map (\<lambda>r. (IntKeyAsSlice cd (fst r), snd r)) rs"
proof (induction rs arbitrary: page)
  case Nil
  then show ?case by simp
next
  case (Cons r rs)
  then show ?case
    by (auto simp add: Page_Put_def split: if_splits)
qed

lemma LoadIntoPage_records:
  "LoadIntoPage cd lower upper rs = (PutOK, buf) \<Longrightarrow>
   page_records buf = map (\<lambda>r. (IntKeyAsSlice cd (fst r), snd r)) rs"
  by (auto simp add: LoadIntoPage_def Page_new_def zero_page_def dest: LoadIntoPage_puts_records)

lemma stamped_page:
  "page_records (ClearAllOverflows (SetSequenceNumber sq buf)) = page_records buf"
  "page_sequence_number (ClearAllOverflows (SetSequenceNumber sq buf)) = sq"
  by (simp_all add: ClearAllOverflows_def SetSequenceNumber_def)

lemma LoadIntoNewPages_loop_total:
  assumes g: "0 < records_per_page_goal opts"
  shows "page_end_idx = page_start_idx + records_per_page_goal opts \<Longrightarrow>
    page_start_idx \<le> length recs \<Longrightarrow>
    \<exists>res. LoadIntoNewPages_loop cd opts sq lb ub recs page_start_idx page_end_idx sb m = Some res \<and>
      (\<forall>start' sb' m'. res = Inr (start', sb', m') \<longrightarrow>
         start' \<le> length recs \<and> length recs < start' + records_per_page_goal opts \<and>
         (\<exists>ws. disk_writes m' = disk_writes m @ ws \<and>
               page_start_idx + length ws * records_per_page_goal opts = start' \<and>
               (\<forall>w\<in>set ws. length (page_records (snd w)) = records_per_page_goal opts \<and>
                            page_sequence_number (snd w) = sq)))"
proof (induction "length recs - page_start_idx" arbitrary: page_start_idx page_end_idx sb m
    rule: less_induct)
  case less
  let ?goal = "records_per_page_goal opts"
  show ?case
  proof (cases "page_end_idx \<le> length recs")
    case False
    then have "LoadIntoNewPages_loop cd opts sq lb ub recs page_start_idx page_end_idx sb m =
        Some (Inr (page_start_idx, sb, m))"
      by (subst LoadIntoNewPages_loop.simps) simp
    with False less.prems show ?thesis by simp
  next
    case True
    let ?lower = "if page_start_idx = 0 then lb else fst (recs ! page_start_idx)"
    let ?upper = "if page_end_idx = length recs then ub else fst (recs ! page_end_idx)"
    let ?chunk = "take (page_end_idx - page_start_idx) (drop page_start_idx recs)"
    obtain st buf where lp: "LoadIntoPage cd ?lower ?upper ?chunk = (st, buf)"
      by (cases "LoadIntoPage cd ?lower ?upper ?chunk") auto
    show ?thesis
    proof (cases st)
      case PutFull
      with True lp have "LoadIntoNewPages_loop cd opts sq lb ub recs page_start_idx page_end_idx sb m =
          Some (Inl AssertionFailed)"
        by (subst LoadIntoNewPages_loop.simps) (simp add: Let_def)
      then show ?thesis by simp
    next
      case PutOK
      obtain seg m1 where w: "write_new_page sq buf m = (seg, m1)"
        by (cases "write_new_page sq buf m") auto
      let ?sb = "sb @ [(?lower, \<lparr>seg_id = seg, seg_model = None\<rparr>)]"
      have unf: "LoadIntoNewPages_loop cd opts sq lb ub recs page_start_idx page_end_idx sb m =
          LoadIntoNewPages_loop cd opts sq lb ub recs page_end_idx (page_end_idx + ?goal) ?sb m1"
        using True lp PutOK w by (subst LoadIntoNewPages_loop.simps) (simp add: Let_def)
      have dec: "length recs - page_end_idx < length recs - page_start_idx"
        using True less.prems g by simp
      from less.hyps [OF dec refl True, of ?sb m1]
      obtain res where r: "LoadIntoNewPages_loop cd opts sq lb ub recs page_end_idx (page_end_idx + ?goal) ?sb m1 = Some res"
        and p: "\<forall>start' sb' m'. res = Inr (start', sb', m') \<longrightarrow>
         start' \<le> length recs \<and> length recs < start' + ?goal \<and>
         (\<exists>ws. disk_writes m' = disk_writes m1 @ ws \<and>
               page_end_idx + length ws * ?goal = start' \<and>
               (\<forall>w\<in>set ws. length (page_records (snd w)) = ?goal \<and>
                            page_sequence_number (snd w) = sq))"
        by blast
      have len: "length ?chunk = ?goal"
        using True less.prems by simp
      let ?new = "(seg, ClearAllOverflows (SetSequenceNumber sq buf))"
      have new: "length (page_records (snd ?new)) = ?goal \<and> page_sequence_number (snd ?new) = sq"
        using LoadIntoPage_records [of cd ?lower ?upper ?chunk buf] lp PutOK len
        by (simp add: stamped_page)
      have dw: "disk_writes m1 = disk_writes m @ [?new]"
        using w by (rule write_new_page_writes)
      have "\<forall>start' sb' m'. res = Inr (start', sb', m') \<longrightarrow>
         start' \<le> length recs \<and> length recs < start' + ?goal \<and>
         (\<exists>ws. disk_writes m' = disk_writes m @ ws \<and>
               page_start_idx + length ws * ?goal = start' \<and>
               (\<forall>w\<in>set ws. length (page_records (snd w)) = ?goal \<and>
                            page_sequence_number (snd w) = sq))"
      proof (intro allI impI)
        fix start' sb' m'
        assume e: "res = Inr (start', sb', m')"
        with p obtain ws where a: "start' \<le> length recs" "length recs < start' + ?goal"
          and b: "disk_writes m' = disk_writes m1 @ ws" "page_end_idx + length ws * ?goal = start'"
          and c: "\<forall>w\<in>set ws. length (page_records (snd w)) = ?goal \<and> page_sequence_number (snd w) = sq"
          by blast
        have "disk_writes m' = disk_writes m @ (?new # ws)" using b dw by simp
        moreover have "page_start_idx + length (?new # ws) * ?goal = start'"
          using b less.prems by simp
        moreover have "\<forall>w\<in>set (?new # ws). length (page_records (snd w)) = ?goal \<and>
            page_sequence_number (snd w) = sq"
          using c new by simp
        ultimately show "start' \<le> length recs \<and> length recs < start' + ?goal \<and>
         (\<exists>ws. disk_writes m' = disk_writes m @ ws \<and>
               page_start_idx + length ws * ?goal = start' \<and>
               (\<forall>w\<in>set ws. length (page_records (snd w)) = ?goal \<and>
                            page_sequence_number (snd w) = sq))"
          using a by blast
      qed
      with r unf show ?thesis by simp
    qed
  qed
qed


text \<open>
  Claim C9. A call of \<^verbatim>\<open>LoadIntoNewPages\<close> with a positive
  \<^verbatim>\<open>records_per_page_goal\<close> returns. When it returns without a failed assertion, it
  has written one page for every full group of \<^verbatim>\<open>records_per_page_goal\<close> records,
  each stamped with the \<^verbatim>\<open>sequence_number\<close> of the call, and, when records remain, one
  trailing page with the remaining fewer-than-goal records that is stamped with sequence
  number 0 instead.
\<close>

theorem LoadIntoNewPages_sequence_numbers:
  assumes g: "0 < records_per_page_goal opts"
  shows "\<exists>res. LoadIntoNewPages cd opts m sq lb ub recs = Some res \<and>
     (\<forall>bs m'. res = Inr (bs, m') \<longrightarrow>
        (\<exists>full partial. disk_writes m' = disk_writes m @ full @ partial \<and>
            length full = length recs div records_per_page_goal opts \<and>
            (\<forall>w\<in>set full. length (page_records (snd w)) = records_per_page_goal opts \<and>
                            page_sequence_number (snd w) = sq) \<and>
            (if length recs mod records_per_page_goal opts = 0 then partial = []
             else \<exists>w. partial = [w] \<and>
                    length (page_records (snd w)) = length recs mod records_per_page_goal opts \<and>
                    page_sequence_number (snd w) = 0)))"
proof -
  let ?goal = "records_per_page_goal opts"
  let ?n = "length recs"
  from LoadIntoNewPages_loop_total [OF g, of ?goal 0 recs cd sq lb ub "[]" m]
  obtain res0 where r0: "LoadIntoNewPages_loop cd opts sq lb ub recs 0 ?goal [] m = Some res0"
    and p0: "\<forall>start' sb' m'. res0 = Inr (start', sb', m') \<longrightarrow>
         start' \<le> ?n \<and> ?n < start' + ?goal \<and>
         (\<exists>ws. disk_writes m' = disk_writes m @ ws \<and>
               0 + length ws * ?goal = start' \<and>
               (\<forall>w\<in>set ws. length (page_records (snd w)) = ?goal \<and>
                            page_sequence_number (snd w) = sq))"
    by auto
  show ?thesis
  proof (cases res0)
    case (Inl e)
    with r0 show ?thesis by (simp add: LoadIntoNewPages_def)
  next
    case (Inr t)
    then obtain start' sb' m1 where t: "res0 = Inr (start', sb', m1)" by (cases t) auto
    with p0 obtain ws where a: "start' \<le> ?n" "?n < start' + ?goal"
      and b: "disk_writes m1 = disk_writes m @ ws" "length ws * ?goal = start'"
      and c: "\<forall>w\<in>set ws. length (page_records (snd w)) = ?goal \<and> page_sequence_number (snd w) = sq"
      by auto
    have dv: "?n div ?goal = length ws"
      using a b by (intro div_nat_eqI) (simp_all add: mult.commute)
    have md: "?n mod ?goal = ?n - start'"
      using dv b by (metis minus_mult_div_eq_mod mult.commute)
    show ?thesis
    proof (cases "start' < ?n")
      case False
      with a have eq: "start' = ?n" by simp
      then have "LoadIntoNewPages cd opts m sq lb ub recs = Some (Inr (sb', m1))"
        using r0 t by (simp add: LoadIntoNewPages_def)
      moreover have "?n mod ?goal = 0" using md eq by simp
      ultimately show ?thesis using b c dv by auto
    next
      case True
      let ?lower = "if start' = 0 then lb else fst (recs ! start')"
      obtain st buf where lp: "LoadIntoPage cd ?lower ub (drop start' recs) = (st, buf)"
        by (cases "LoadIntoPage cd ?lower ub (drop start' recs)") auto
      show ?thesis
      proof (cases st)
        case PutFull
        then have "LoadIntoNewPages cd opts m sq lb ub recs = Some (Inl AssertionFailed)"
          using r0 t True lp by (simp add: LoadIntoNewPages_def Let_def)
        then show ?thesis by simp
      next
        case PutOK
        obtain seg m2 where w: "write_new_page 0 buf m1 = (seg, m2)"
          by (cases "write_new_page 0 buf m1") auto
        let ?last = "(seg, ClearAllOverflows (SetSequenceNumber 0 buf))"
        have res: "LoadIntoNewPages cd opts m sq lb ub recs =
            Some (Inr (sb' @ [(?lower, \<lparr>seg_id = seg, seg_model = None\<rparr>)], m2))"
          using r0 t True lp PutOK w by (simp add: LoadIntoNewPages_def Let_def)
        have dw: "disk_writes m2 = disk_writes m @ ws @ [?last]"
          using write_new_page_writes [OF w] b by simp
        have lst: "length (page_records (snd ?last)) = ?n mod ?goal \<and>
            page_sequence_number (snd ?last) = 0"
          using LoadIntoPage_records [of cd ?lower ub "drop start' recs" buf] lp PutOK md
          by (simp add: stamped_page)
        have nz: "?n mod ?goal \<noteq> 0" using md True by simp
        have "\<exists>full partial. disk_writes m2 = disk_writes m @ full @ partial \<and>
            length full = ?n div ?goal \<and>
            (\<forall>w\<in>set full. length (page_records (snd w)) = ?goal \<and>
                            page_sequence_number (snd w) = sq) \<and>
            (if ?n mod ?goal = 0 then partial = []
             else \<exists>w. partial = [w] \<and>
                    length (page_records (snd w)) = ?n mod ?goal \<and>
                    page_sequence_number (snd w) = 0)"
          using dw c dv lst nz by (intro exI [of _ ws] exI [of _ "[?last]"]) auto
        then show ?thesis
          unfolding res by simp
      qed
    qed
  qed
qed


theorem LoadIntoNewPages_sequence_numbers_witness:
  "0 < records_per_page_goal \<lparr>records_per_page_goal = 2\<rparr> \<and>
   (\<exists>res. LoadIntoNewPages big_endian_codec \<lparr>records_per_page_goal = 2\<rparr>
      \<lparr>free_list = [(0, 5)], sf_allocated = 9, disk_writes = [], write_count = 0,
       next_sequence_number = 8\<rparr>
      7 1000 2000 [(1000, [118, 48]), (1010, [118, 49]), (1020, [118, 50])] = Some res \<and>
      (\<forall>bs m'. res = Inr (bs, m') \<longrightarrow>
        (\<exists>full partial. disk_writes m' = [] @ full @ partial \<and>
            length full = 1 \<and>
            (\<forall>w\<in>set full. length (page_records (snd w)) = 2 \<and> page_sequence_number (snd w) = 7) \<and>
            (\<exists>w. partial = [w] \<and> length (page_records (snd w)) = 1 \<and>
                 page_sequence_number (snd w) = 0)))) \<and>
   LoadIntoNewPages big_endian_codec \<lparr>records_per_page_goal = 2\<rparr>
      \<lparr>free_list = [(0, 5)], sf_allocated = 9, disk_writes = [], write_count = 0,
       next_sequence_number = 8\<rparr>
      7 1000 2000 [(1000, [118, 48]), (1010, [118, 49]), (1020, [118, 50])] =
    Some (Inr ([(1000, \<lparr>seg_id = (0, 5), seg_model = None\<rparr>),
                (1020, \<lparr>seg_id = (0, 9), seg_model = None\<rparr>)],
      \<lparr>free_list = [], sf_allocated = 10,
       disk_writes =
         [((0, 5), \<lparr>page_lower = IntKeyAsSlice_be 1000, page_upper = IntKeyAsSlice_be 1019,
                    page_records = [(IntKeyAsSlice_be 1000, [118, 48]), (IntKeyAsSlice_be 1010, [118, 49])],
                    page_sequence_number = 7, page_overflow = None\<rparr>),
          ((0, 9), \<lparr>page_lower = IntKeyAsSlice_be 1020, page_upper = IntKeyAsSlice_be 1999,
                    page_records = [(IntKeyAsSlice_be 1020, [118, 50])],
                    page_sequence_number = 0, page_overflow = None\<rparr>)],
       write_count = 2, next_sequence_number = 8\<rparr>))"
proof -
  let ?opts = "\<lparr>records_per_page_goal = 2\<rparr>"
  let ?m = "\<lparr>free_list = [(0, 5)], sf_allocated = 9, disk_writes = [], write_count = 0,
       next_sequence_number = 8\<rparr>"
  let ?recs = "[(1000, [118, 48]), (1010, [118, 49]), (1020, [118, 50])] :: Record list"
  have g: "0 < records_per_page_goal ?opts" by simp
  have e: "LoadIntoNewPages big_endian_codec ?opts ?m 7 1000 2000 ?recs =
    Some (Inr ([(1000, \<lparr>seg_id = (0, 5), seg_model = None\<rparr>),
                (1020, \<lparr>seg_id = (0, 9), seg_model = None\<rparr>)],
      \<lparr>free_list = [], sf_allocated = 10,
       disk_writes =
         [((0, 5), \<lparr>page_lower = IntKeyAsSlice_be 1000, page_upper = IntKeyAsSlice_be 1019,
                    page_records = [(IntKeyAsSlice_be 1000, [118, 48]), (IntKeyAsSlice_be 1010, [118, 49])],
                    page_sequence_number = 7, page_overflow = None\<rparr>),
          ((0, 9), \<lparr>page_lower = IntKeyAsSlice_be 1020, page_upper = IntKeyAsSlice_be 1999,
                    page_records = [(IntKeyAsSlice_be 1020, [118, 50])],
                    page_sequence_number = 0, page_overflow = None\<rparr>)],
       write_count = 2, next_sequence_number = 8\<rparr>))"
    by (simp add: LoadIntoNewPages_def LoadIntoNewPages_loop.simps LoadIntoPage_def Page_new_def
      zero_page_def Page_Put_def big_endian_codec_def write_new_page_def FreeList_Get_def
      AllocateSegment_def Page_kSize_def SetSequenceNumber_def ClearAllOverflows_def Let_def)
  from LoadIntoNewPages_sequence_numbers [OF g, of big_endian_codec ?m 7 1000 2000 ?recs]
  have "\<exists>res. LoadIntoNewPages big_endian_codec ?opts ?m 7 1000 2000 ?recs = Some res \<and>
      (\<forall>bs m'. res = Inr (bs, m') \<longrightarrow>
        (\<exists>full partial. disk_writes m' = [] @ full @ partial \<and>
            length full = 1 \<and>
            (\<forall>w\<in>set full. length (page_records (snd w)) = 2 \<and> page_sequence_number (snd w) = 7) \<and>
            (\<exists>w. partial = [w] \<and> length (page_records (snd w)) = 1 \<and>
                 page_sequence_number (snd w) = 0)))"
    by simp
  with g e show ?thesis by blast
qed


section \<open>ReorganizeOverflowChain\<close>

lemma FixOverflowChain_retry_found:
  "fix_chain (attempt + k) = Some chain \<Longrightarrow> \<forall>j<k. fix_chain (attempt + j) = None \<Longrightarrow>
   FixOverflowChain_retry fix_chain attempt = Some chain"
proof (induction k arbitrary: attempt)
  case 0
  then show ?case by (subst FixOverflowChain_retry.simps) simp
next
  case (Suc k)
  from Suc.prems(2) have n: "fix_chain attempt = None" by force
  have "FixOverflowChain_retry fix_chain (attempt + 1) = Some chain"
  proof (rule Suc.IH)
    show "fix_chain (attempt + 1 + k) = Some chain" using Suc.prems(1) by simp
    show "\<forall>j<k. fix_chain (attempt + 1 + j) = None"
    proof (intro allI impI)
      fix j assume "j < k"
      then have "Suc j < Suc k" by simp
      with Suc.prems(2) have "fix_chain (attempt + Suc j) = None" by blast
      then show "fix_chain (attempt + 1 + j) = None" by simp
    qed
  qed
  with n show ?case by (subst FixOverflowChain_retry.simps) simp
qed

lemma fold_UnfixPage:
  "fold (\<lambda>frame. UnfixPage frame False) chain db =
     db\<lparr>unfix_log := unfix_log db @ map (\<lambda>frame. (frame, False)) chain\<rparr>"
  by (induction chain arbitrary: db) (simp_all add: UnfixPage_def)

text \<open>
  Claim C6. For a chain of length 1, \<^verbatim>\<open>ReorganizeOverflowChain\<close> returns OK and its
  only effect is to unfix the single frame as not dirty: no frame is written, the model
  and the file manager are untouched.
\<close>

theorem ReorganizeOverflowChain_length_1:
  assumes "fix_chain k = Some chain" and "\<forall>j<k. fix_chain j = None" and "length chain = 1"
  shows "ReorganizeOverflowChain env opts fix_chain fill_pct db =
           Some (Inr (OK, db\<lparr>unfix_log := unfix_log db @ [(chain ! 0, False)]\<rparr>))"
proof -
  have "FixOverflowChain_retry fix_chain 0 = Some chain"
    using assms(1,2) FixOverflowChain_retry_found [of fix_chain 0 k chain] by simp
  with assms(3) show ?thesis
    by (simp add: ReorganizeOverflowChain_def UnfixPage_def)
qed

theorem ReorganizeOverflowChain_length_1_witness:
  "fix_at_once [7] 0 = Some [7] \<and> length [7 :: nat] = 1 \<and>
   ReorganizeOverflowChain example_env (example_opts 3) (fix_at_once [7]) 50 example_db =
     Some (Inr (OK, example_db\<lparr>unfix_log := unfix_log example_db @ [(7, False)]\<rparr>))"
  using ReorganizeOverflowChain_length_1 [of "fix_at_once [7]" 0 "[7]" example_env "example_opts 3" 50 example_db]
  by (simp add: fix_at_once_def)

text \<open>
  Claim C5, as stated, fails for a chain of length 1 when \<^verbatim>\<open>max_reorg_fanout\<close> is 0: the
  length-1 check runs first and the call returns OK.
\<close>

theorem ReorganizeOverflowChain_too_long_counterexample:
  "max_reorg_fanout (example_opts 0) < length [7 :: nat] \<and>
   ReorganizeOverflowChain example_env (example_opts 0) (fix_at_once [7]) 50 example_db =
     Some (Inr (OK, example_db\<lparr>unfix_log := unfix_log example_db @ [(7, False)]\<rparr>)) \<and>
   OK \<noteq> InvalidArgument"
  by (simp add: ReorganizeOverflowChain_def FixOverflowChain_retry.simps fix_at_once_def
      example_opts_def UnfixPage_def)

text \<open>
  Claim C5, amended. For a chain whose length exceeds \<^verbatim>\<open>max_reorg_fanout\<close> and is not
  1, \<^verbatim>\<open>ReorganizeOverflowChain\<close> returns InvalidArgument and its only effect is to
  unfix every frame of the chain as not dirty, in chain order: pages, model and file
  manager are unchanged.
\<close>

theorem ReorganizeOverflowChain_too_long:
  assumes "fix_chain k = Some chain" and "\<forall>j<k. fix_chain j = None"
    and "max_reorg_fanout opts < length chain" and "length chain \<noteq> 1"
  shows "ReorganizeOverflowChain env opts fix_chain fill_pct db =
           Some (Inr (InvalidArgument,
                      db\<lparr>unfix_log := unfix_log db @ map (\<lambda>frame. (frame, False)) chain\<rparr>))"
proof -
  have "FixOverflowChain_retry fix_chain 0 = Some chain"
    using assms(1,2) FixOverflowChain_retry_found [of fix_chain 0 k chain] by simp
  with assms(3,4) show ?thesis
    by (simp add: ReorganizeOverflowChain_def fold_UnfixPage)
qed

theorem ReorganizeOverflowChain_too_long_witness:
  "fix_at_once [7, 9] 0 = Some [7, 9] \<and>
   max_reorg_fanout (example_opts 1) < length [7 :: nat, 9] \<and> length [7 :: nat, 9] \<noteq> 1 \<and>
   ReorganizeOverflowChain example_env (example_opts 1) (fix_at_once [7, 9]) 50 example_db =
     Some (Inr (InvalidArgument,
                example_db\<lparr>unfix_log := unfix_log example_db @ [(7, False), (9, False)]\<rparr>))"
  using ReorganizeOverflowChain_too_long [of "fix_at_once [7, 9]" 0 "[7, 9]" "example_opts 1" example_env 50 example_db]
  by (simp add: fix_at_once_def example_opts_def)




lemma next_page_id_UnfixPage [simp]: "next_page_id (UnfixPage i d db) = next_page_id db"
  by (simp add: UnfixPage_def)




lemma cp_lower_ChainPage_Put [simp]:
  "cp_lower (snd (ChainPage_Put env page k v)) = cp_lower page"
  by (simp add: ChainPage_Put_def)


lemma model_index_UnfixPage [simp]: "model_index (UnfixPage i d db) = model_index db"
  by (simp add: UnfixPage_def)


















section \<open>ComputePageLowerBoundaries\<close>

text \<open>
  The binary search on a comparison that is downward closed: the result lies within
  \<^verbatim>\<open>len\<close> keys of \<^verbatim>\<open>first\<close>, every key from \<^verbatim>\<open>first\<close> up to it satisfies the
  comparison, and it does not itself unless it is the end of the range.
\<close>

lemma lower_bound_loop_correct:
  "\<forall>k k'. k \<le> k' \<longrightarrow> cmp k' \<longrightarrow> cmp k \<Longrightarrow>
     0 \<le> len \<Longrightarrow> uint first + len < 2 ^ 64 \<Longrightarrow>
     uint first \<le> uint (lower_bound_loop cmp first len) \<and>
     uint (lower_bound_loop cmp first len) \<le> uint first + len \<and>
     (\<forall>k. first \<le> k \<and> k < lower_bound_loop cmp first len \<longrightarrow> cmp k) \<and>
     (uint (lower_bound_loop cmp first len) < uint first + len \<longrightarrow>
        \<not> cmp (lower_bound_loop cmp first len))"
proof (induction cmp first len rule: lower_bound_loop.induct)
  case (1 cmp first len)
  note down = "1.prems"(1)
  show ?case
  proof (cases "len > 0")
    case False
    with "1.prems" have "len = 0" by simp
    then have "lower_bound_loop cmp first len = first"
      by (subst lower_bound_loop.simps) simp
    then show ?thesis using \<open>len = 0\<close> by auto
  next
    case True
    define half where "half = len div 2"
    define middle where "middle = first + word_of_int half"
    have h0: "0 \<le> half" "half < len" using True by (simp_all add: half_def)
    have f0: "0 \<le> uint first" by simp
    have hb: "half mod 2 ^ 64 = half"
      using h0 "1.prems" f0 by (intro mod_pos_pos_trivial) linarith+
    have sb: "(uint first + half) mod 2 ^ 64 = uint first + half"
      using h0 "1.prems" f0 by (intro mod_pos_pos_trivial) linarith+
    have um: "uint middle = uint first + half"
      unfolding middle_def using hb sb
      by (simp add: uint_word_ariths uint_word_of_int)
    have r0: "lower_bound_loop cmp first len =
        (if cmp middle then lower_bound_loop cmp (middle + 1) (len - half - 1)
         else lower_bound_loop cmp first half)"
      using True by (subst lower_bound_loop.simps) (simp add: Let_def half_def middle_def)
    show ?thesis
    proof (cases "cmp middle")
      case cm: True
      let ?r = "lower_bound_loop cmp (middle + 1) (len - half - 1)"
      have "(uint first + half + 1) mod 2 ^ 64 = uint first + half + 1"
        using h0 "1.prems" f0 by (intro mod_pos_pos_trivial) linarith+
      then have um1: "uint (middle + 1) = uint first + half + 1"
        using um by (simp add: uint_word_ariths)
      have ih: "uint (middle + 1) \<le> uint ?r \<and> uint ?r \<le> uint (middle + 1) + (len - half - 1) \<and>
          (\<forall>k. middle + 1 \<le> k \<and> k < ?r \<longrightarrow> cmp k) \<and>
          (uint ?r < uint (middle + 1) + (len - half - 1) \<longrightarrow> \<not> cmp ?r)"
        using "1.IH"(1) [OF True half_def middle_def cm down] h0 um1 "1.prems" by simp
      have "\<forall>k. first \<le> k \<and> k < ?r \<longrightarrow> cmp k"
      proof (intro allI impI)
        fix k assume k: "first \<le> k \<and> k < ?r"
        show "cmp k"
        proof (cases "k \<le> middle")
          case True
          then show ?thesis using cm down by blast
        next
          case False
          then have "uint middle < uint k" by (simp add: word_le_def)
          then have "middle + 1 \<le> k" using um um1 by (simp add: word_le_def)
          with k ih show ?thesis by blast
        qed
      qed
      with ih um1 h0 show ?thesis unfolding r0 using cm by simp
    next
      case ncm: False
      let ?r = "lower_bound_loop cmp first half"
      have ih: "uint first \<le> uint ?r \<and> uint ?r \<le> uint first + half \<and>
          (\<forall>k. first \<le> k \<and> k < ?r \<longrightarrow> cmp k) \<and>
          (uint ?r < uint first + half \<longrightarrow> \<not> cmp ?r)"
        using "1.IH"(2) [OF True half_def middle_def ncm down] h0 "1.prems" by simp
      have "\<not> cmp ?r" if "uint ?r < uint first + len"
      proof (cases "uint ?r < uint first + half")
        case True
        with ih show ?thesis by blast
      next
        case False
        with ih have "uint ?r = uint middle" using um by simp
        then have "?r = middle" by (simp add: word_uint_eq_iff)
        with ncm show ?thesis by simp
      qed
      with ih h0 show ?thesis unfolding r0 using ncm by simp
    qed
  qed
qed

lemma std_lower_bound_partition:
  assumes down: "\<forall>k k'. k \<le> k' \<longrightarrow> cmp k' \<longrightarrow> cmp k"
    and lt: "lower < upper" and small: "uint (upper - lower) < 2 ^ 63"
    and b: "\<not> cmp b" "\<forall>k<b. cmp k" "lower \<le> b" "b \<le> upper"
  shows "std_lower_bound cmp lower upper = b"
proof -
  let ?len = "sint (upper - lower)"
  let ?r = "lower_bound_loop cmp lower ?len"
  have ud: "uint (upper - lower) = uint upper - uint lower"
    using lt by (simp add: uint_sub_if' word_less_def word_le_def)
  have "- (2 ^ 63) \<le> (0 :: int)" by simp
  also have "0 \<le> uint (upper - lower)" by simp
  finally have "- (2 ^ 63) \<le> uint (upper - lower)" .
  then have "signed_take_bit 63 (uint (upper - lower)) = uint (upper - lower)"
    using small by (rule signed_take_bit_int_eq_self)
  then have len: "?len = uint upper - uint lower"
    using ud by (simp add: sint_uint)
  have l0: "0 \<le> ?len" using lt len by (simp add: word_less_def)
  have bnd: "uint lower + ?len < 2 ^ 64"
    using len uint_lt2p [of upper] by simp
  from lower_bound_loop_correct [OF down l0 bnd]
  have r1: "uint lower \<le> uint ?r" and r2: "uint ?r \<le> uint upper"
    and r3: "\<forall>k. lower \<le> k \<and> k < ?r \<longrightarrow> cmp k"
    and r4: "uint ?r < uint upper \<longrightarrow> \<not> cmp ?r"
    using len by simp_all
  have le: "?r \<le> b"
  proof (rule ccontr)
    assume "\<not> ?r \<le> b"
    then have "b < ?r" by simp
    with b(3) r3 have "cmp b" by blast
    with b(1) show False by simp
  qed
  have ge: "b \<le> ?r"
  proof (cases "uint ?r < uint upper")
    case True
    with r4 have "\<not> cmp ?r" by simp
    with b(2) show ?thesis by (meson not_le)
  next
    case False
    with r2 have "?r = upper" by (simp add: word_uint_eq_iff)
    with b(4) show ?thesis by simp
  qed
  from le ge show ?thesis by (simp add: std_lower_bound_def)
qed

lemma page_boundary_found:
  assumes mono: "\<forall>k k'. k \<le> k' \<longrightarrow> page_of env seg line k \<le> page_of env seg line k'"
    and sb: "search_bounds env seg line page_to_key i = (lower, upper)"
    and lt: "lower < upper" and small: "uint (upper - lower) < 2 ^ 63"
    and b: "page_of env seg line b = i" "\<forall>k<b. page_of env seg line k < i"
      "lower \<le> b" "b \<le> upper"
  shows "page_boundary env seg line page_to_key i = Inr b"
proof -
  let ?cmp = "\<lambda>key_candidate. page_of env seg line key_candidate < i"
  have down: "\<forall>k k'. k \<le> k' \<longrightarrow> ?cmp k' \<longrightarrow> ?cmp k"
    using mono by (meson le_less_trans)
  have nb: "\<not> ?cmp b" using b(1) by simp
  have r: "std_lower_bound ?cmp lower upper = b"
    using down lt small nb b(2) b(3) b(4) by (rule std_lower_bound_partition)
  have prev: "b = 0 \<or> page_of env seg line (b - 1) < i"
  proof (cases "b = 0")
    case False
    then have "0 < unat b" by (simp add: unat_gt_0)
    with False have "b - 1 < b" by (simp add: word_less_nat_alt unat_minus_one)
    with b(2) show ?thesis by blast
  qed simp
  show ?thesis
    using sb lt r b(1) prev by (simp add: page_boundary_def Let_def)
qed

lemma boundaries_loop_map:
  "\<forall>i\<in>set idxs. page_boundary env seg line page_to_key i = Inr (B i) \<Longrightarrow>
   boundaries_loop env seg line page_to_key idxs acc = Inr (acc @ map B idxs)"
  by (induction idxs arbitrary: acc) simp_all

text \<open>
  When for every page index the search bounds are in order, less than \<^verbatim>\<open>2^63\<close> apart
  and enclose the smallest key of that page, every binary search finds that key and no
  assertion fails.
\<close>

lemma boundaries_of_bracket:
  assumes multi: "1 < page_count seg" and m: "model seg = Some line"
    and mono: "\<forall>k k'. k \<le> k' \<longrightarrow> page_of env seg line k \<le> page_of env seg line k'"
    and base: "page_of env seg line (base_key seg) = 0"
    and bracket: "\<forall>i. 1 \<le> i \<and> i < page_count seg \<longrightarrow>
        (\<exists>b. page_of env seg line b = i \<and> (\<forall>k<b. page_of env seg line k < i) \<and>
             fst (search_bounds env seg line (Line_Invert env line) i) \<le> b \<and>
             b \<le> snd (search_bounds env seg line (Line_Invert env line) i) \<and>
             fst (search_bounds env seg line (Line_Invert env line) i) <
               snd (search_bounds env seg line (Line_Invert env line) i) \<and>
             uint (snd (search_bounds env seg line (Line_Invert env line) i) -
                   fst (search_bounds env seg line (Line_Invert env line) i)) < 2 ^ 63)"
  shows "\<exists>bs. ComputePageLowerBoundaries env seg = Inr bs \<and>
           length bs = page_count seg \<and> bs ! 0 = base_key seg \<and> sorted_wrt (<) bs \<and>
           (\<forall>i. 1 \<le> i \<and> i < page_count seg \<longrightarrow>
                page_of env seg line (bs ! i) = i \<and>
                (\<forall>k. page_of env seg line k = i \<longrightarrow> bs ! i \<le> k))"
proof -
  let ?inv = "Line_Invert env line"
  let ?n = "page_count seg"
  let ?pf = "page_of env seg line"
  from bracket have "\<exists>B. \<forall>i. 1 \<le> i \<and> i < ?n \<longrightarrow>
      (?pf (B i) = i \<and> (\<forall>k<B i. ?pf k < i) \<and>
       fst (search_bounds env seg line ?inv i) \<le> B i \<and>
       B i \<le> snd (search_bounds env seg line ?inv i) \<and>
       fst (search_bounds env seg line ?inv i) < snd (search_bounds env seg line ?inv i) \<and>
       uint (snd (search_bounds env seg line ?inv i) - fst (search_bounds env seg line ?inv i))
         < 2 ^ 63)"
    by (intro choice) blast
  then obtain B where B: "\<And>i. 1 \<le> i \<Longrightarrow> i < ?n \<Longrightarrow>
      ?pf (B i) = i \<and> (\<forall>k<B i. ?pf k < i) \<and>
       fst (search_bounds env seg line ?inv i) \<le> B i \<and>
       B i \<le> snd (search_bounds env seg line ?inv i) \<and>
       fst (search_bounds env seg line ?inv i) < snd (search_bounds env seg line ?inv i) \<and>
       uint (snd (search_bounds env seg line ?inv i) - fst (search_bounds env seg line ?inv i))
         < 2 ^ 63"
    by blast
  have pb: "page_boundary env seg line ?inv i = Inr (B i)" if "1 \<le> i" "i < ?n" for i
  proof -
    obtain lower upper where sb: "search_bounds env seg line ?inv i = (lower, upper)"
      by (cases "search_bounds env seg line ?inv i") auto
    from B [OF that] sb show ?thesis
      by (intro page_boundary_found [OF mono sb]) simp_all
  qed
  then have "\<forall>i\<in>set [1..<?n]. page_boundary env seg line ?inv i = Inr (B i)" by simp
  then have loop: "boundaries_loop env seg line ?inv [1..<?n] [base_key seg] =
      Inr ([base_key seg] @ map B [1..<?n])"
    by (rule boundaries_loop_map)
  let ?bs = "base_key seg # map B [1..<?n]"
  have len: "length ?bs = ?n" using multi by simp
  have res: "ComputePageLowerBoundaries env seg = Inr ?bs"
    using multi m loop by (simp add: ComputePageLowerBoundaries_def)
  have nth: "?bs ! i = B i" if "1 \<le> i" "i < ?n" for i
    using that by (cases i) simp_all
  have bless: "B i < B j" if "1 \<le> i" "i < j" "j < ?n" for i j
  proof (rule ccontr)
    assume "\<not> B i < B j"
    then have "B j \<le> B i" by simp
    with mono have "?pf (B j) \<le> ?pf (B i)" by blast
    moreover have "?pf (B j) = j" "?pf (B i) = i" using B that by simp_all
    ultimately show False using that by simp
  qed
  have baseless: "base_key seg < B j" if "1 \<le> j" "j < ?n" for j
  proof (rule ccontr)
    assume "\<not> base_key seg < B j"
    then have "B j \<le> base_key seg" by simp
    with mono have "?pf (B j) \<le> ?pf (base_key seg)" by blast
    moreover have "?pf (B j) = j" using B that by simp
    ultimately show False using base that by simp
  qed
  have srt: "sorted_wrt (<) ?bs"
  proof -
    have "?bs ! i < ?bs ! j" if "i < j" "j < length ?bs" for i j
    proof (cases "i = 0")
      case True
      then show ?thesis using that baseless [of j] nth [of j] len by simp
    next
      case False
      then show ?thesis using that bless [of i j] nth [of i] nth [of j] len by simp
    qed
    then show ?thesis by (simp only: sorted_wrt_iff_nth_less) blast
  qed
  have least: "?pf (?bs ! i) = i \<and> (\<forall>k. ?pf k = i \<longrightarrow> ?bs ! i \<le> k)" if "1 \<le> i" "i < ?n" for i
  proof -
    have "\<forall>k. ?pf k = i \<longrightarrow> B i \<le> k"
    proof (intro allI impI)
      fix k assume k: "?pf k = i"
      show "B i \<le> k"
      proof (rule ccontr)
        assume "\<not> B i \<le> k"
        then have "k < B i" by simp
        with B [OF that] have "?pf k < i" by blast
        with k show False by simp
      qed
    qed
    with B [OF that] nth [OF that] show ?thesis by simp
  qed
  then have all: "\<forall>i. 1 \<le> i \<and> i < ?n \<longrightarrow>
      ?pf (?bs ! i) = i \<and> (\<forall>k. ?pf k = i \<longrightarrow> ?bs ! i \<le> k)"
    by blast
  have z: "?bs ! 0 = base_key seg" by simp
  from res len z srt all show ?thesis by blast
qed

text \<open>
  Steps 1 and 2 of the loop body compute bounds that enclose the smallest key \<open>b\<close> of page
  \<open>i\<close>, whichever branch is taken, when the inverted model is less than a page off on
  either side: the key it gives for \<open>i - 1\<close> lies on a page below \<open>i\<close>, and the key it
  gives for \<open>i + 1\<close> lies on page \<open>i\<close> or above.
\<close>

lemma search_bounds_bracket:
  assumes mono: "\<forall>k k'. k \<le> k' \<longrightarrow> page_of env seg line k \<le> page_of env seg line k'"
    and i: "1 \<le> i" "i < page_count seg"
    and b: "page_of env seg line b = i" "\<forall>k<b. page_of env seg line k < i"
    and below: "page_of env seg line (inverse_key env seg line (i - 1)) < i"
    and above: "i \<le> page_of env seg line (inverse_key env seg line (i + 1))"
    and width: "\<forall>j<page_count seg.
        uint (inverse_key env seg line (j + 1) - inverse_key env seg line j) < 2 ^ 63"
  shows "fst (search_bounds env seg line (Line_Invert env line) i) \<le> b \<and>
         b \<le> snd (search_bounds env seg line (Line_Invert env line) i) \<and>
         fst (search_bounds env seg line (Line_Invert env line) i) <
           snd (search_bounds env seg line (Line_Invert env line) i) \<and>
         uint (snd (search_bounds env seg line (Line_Invert env line) i) -
               fst (search_bounds env seg line (Line_Invert env line) i)) < 2 ^ 63"
proof -
  let ?K = "inverse_key env seg line"
  let ?pf = "page_of env seg line"
  have lt_b: "k < b" if "?pf k < i" for k
  proof (rule ccontr)
    assume "\<not> k < b"
    then have "b \<le> k" by simp
    with mono have "?pf b \<le> ?pf k" by blast
    with b(1) that show False by simp
  qed
  have le_b: "b \<le> k" if "i \<le> ?pf k" for k
  proof (rule ccontr)
    assume "\<not> b \<le> k"
    then have "k < b" by simp
    with b(2) have "?pf k < i" by blast
    with that show False by simp
  qed
  show ?thesis
  proof (cases "i \<le> ?pf (?K i)")
    case True
    then have sb: "search_bounds env seg line (Line_Invert env line) i = (?K (i - 1), ?K i)"
      by (simp add: search_bounds_def inverse_key_def Let_def)
    have l: "?K (i - 1) < b" using below by (rule lt_b)
    have u: "b \<le> ?K i" using True by (rule le_b)
    have "i - 1 < page_count seg" using i by simp
    with width have "uint (?K (i - 1 + 1) - ?K (i - 1)) < 2 ^ 63" by blast
    then have w: "uint (?K i - ?K (i - 1)) < 2 ^ 63" using i(1) by simp
    from l u w show ?thesis unfolding sb by auto
  next
    case False
    then have sb: "search_bounds env seg line (Line_Invert env line) i = (?K i, ?K (i + 1))"
      by (simp add: search_bounds_def inverse_key_def Let_def)
    from False have "?pf (?K i) < i" by simp
    then have l: "?K i < b" by (rule lt_b)
    have u: "b \<le> ?K (i + 1)" using above by (rule le_b)
    from width i(2) have w: "uint (?K (i + 1) - ?K i) < 2 ^ 63" by blast
    from l u w show ?thesis unfolding sb by auto
  qed
qed

text \<open>
  With the hypotheses on the model stated through \<^const>\<open>page_of\<close> and
  \<^const>\<open>inverse_key\<close>: the smallest key of every page exists and lies within the search
  bounds, so the loop returns these keys.
\<close>

lemma boundaries_of_inverse:
  assumes multi: "1 < page_count seg" and m: "model seg = Some line"
    and mono: "\<forall>k k'. k \<le> k' \<longrightarrow> page_of env seg line k \<le> page_of env seg line k'"
    and base: "page_of env seg line (base_key seg) = 0"
    and onto: "\<forall>i. 1 \<le> i \<and> i < page_count seg \<longrightarrow> (\<exists>k. page_of env seg line k = i)"
    and below: "\<forall>i. 1 \<le> i \<and> i < page_count seg \<longrightarrow>
        page_of env seg line (inverse_key env seg line (i - 1)) < i"
    and above: "\<forall>i. 1 \<le> i \<and> i < page_count seg \<longrightarrow>
        i \<le> page_of env seg line (inverse_key env seg line (i + 1))"
    and width: "\<forall>j<page_count seg.
        uint (inverse_key env seg line (j + 1) - inverse_key env seg line j) < 2 ^ 63"
  shows "\<exists>bs. ComputePageLowerBoundaries env seg = Inr bs \<and>
           length bs = page_count seg \<and> bs ! 0 = base_key seg \<and> sorted_wrt (<) bs \<and>
           (\<forall>i. 1 \<le> i \<and> i < page_count seg \<longrightarrow>
                page_of env seg line (bs ! i) = i \<and>
                (\<forall>k. page_of env seg line k = i \<longrightarrow> bs ! i \<le> k))"
proof -
  let ?pf = "page_of env seg line"
  let ?sb = "search_bounds env seg line (Line_Invert env line)"
  have "\<exists>b. ?pf b = i \<and> (\<forall>k<b. ?pf k < i) \<and>
       fst (?sb i) \<le> b \<and> b \<le> snd (?sb i) \<and> fst (?sb i) < snd (?sb i) \<and>
       uint (snd (?sb i) - fst (?sb i)) < 2 ^ 63"
    if i: "1 \<le> i \<and> i < page_count seg" for i
  proof -
    from onto i obtain k where k: "?pf k = i" by blast
    define b where "b = (LEAST k. ?pf k = i)"
    have b1: "?pf b = i" unfolding b_def using k by (rule LeastI)
    have b2: "\<forall>k<b. ?pf k < i"
    proof (intro allI impI)
      fix k' assume lt: "k' < b"
      then have "?pf k' \<noteq> i" unfolding b_def by (rule not_less_Least)
      moreover from lt mono have "?pf k' \<le> ?pf b" by (simp add: less_imp_le)
      ultimately show "?pf k' < i" using b1 by simp
    qed
    from i have i1: "1 \<le> i" and i2: "i < page_count seg" by simp_all
    from below i have bl: "?pf (inverse_key env seg line (i - 1)) < i" by blast
    from above i have ab: "i \<le> ?pf (inverse_key env seg line (i + 1))" by blast
    from search_bounds_bracket [OF mono i1 i2 b1 b2 bl ab width] b1 b2
    show ?thesis by blast
  qed
  then have bracket: "\<forall>i. 1 \<le> i \<and> i < page_count seg \<longrightarrow>
        (\<exists>b. ?pf b = i \<and> (\<forall>k<b. ?pf k < i) \<and>
             fst (?sb i) \<le> b \<and> b \<le> snd (?sb i) \<and> fst (?sb i) < snd (?sb i) \<and>
             uint (snd (?sb i) - fst (?sb i)) < 2 ^ 63)"
    by blast
  from multi m mono base bracket show ?thesis
    by (rule boundaries_of_bracket)
qed

text \<open>
  Claim C8. For a multi-page segment, \<^verbatim>\<open>ComputePageLowerBoundaries\<close> returns one boundary
  per page, the boundaries are strictly increasing and start at the segment's base key,
  and for every page index \<^verbatim>\<open>i > 0\<close> the boundary at \<^verbatim>\<open>i\<close> is the smallest key that
  \<^verbatim>\<open>PageForKey\<close> maps to \<^verbatim>\<open>i\<close>. Here \<open>pf\<close> is
  \<^verbatim>\<open>PageForKey(base, model, page_count, .)\<close> and \<open>K\<close> is the key that the inverted model
  gives for a page index. What is asked of a segment of the segment builder concerns its
  model only: \<open>pf\<close> is monotone in the key, maps the base key to page 0 and some key to
  every page; the inverted model is less than a page off (the key it gives for \<open>i - 1\<close>
  lies on a page below \<open>i\<close>, the key it gives for \<open>i + 1\<close> on page \<open>i\<close> or above); and
  the keys it gives for neighbouring page indices are less than \<^verbatim>\<open>2^63\<close> apart.
\<close>

theorem ComputePageLowerBoundaries_boundaries:
  fixes pf :: "Key \<Rightarrow> nat" and K :: "nat \<Rightarrow> Key"
  assumes multi: "1 < page_count seg" and m: "model seg = Some line"
    and pf: "pf = PageForKey env (base_key seg) line (page_count seg)"
    and K: "K = (\<lambda>page_idx. Line_to_Key env (Line_Invert env line) page_idx + base_key seg)"
    and mono: "\<forall>k k'. k \<le> k' \<longrightarrow> pf k \<le> pf k'"
    and base: "pf (base_key seg) = 0"
    and onto: "\<forall>i. 1 \<le> i \<and> i < page_count seg \<longrightarrow> (\<exists>k. pf k = i)"
    and below: "\<forall>i. 1 \<le> i \<and> i < page_count seg \<longrightarrow> pf (K (i - 1)) < i"
    and above: "\<forall>i. 1 \<le> i \<and> i < page_count seg \<longrightarrow> i \<le> pf (K (i + 1))"
    and width: "\<forall>j<page_count seg. uint (K (j + 1) - K j) < 2 ^ 63"
  shows "\<exists>bs. ComputePageLowerBoundaries env seg = Inr bs \<and>
           length bs = page_count seg \<and> bs ! 0 = base_key seg \<and> sorted_wrt (<) bs \<and>
           (\<forall>i. 1 \<le> i \<and> i < page_count seg \<longrightarrow>
                pf (bs ! i) = i \<and> (\<forall>k. pf k = i \<longrightarrow> bs ! i \<le> k))"
proof -
  have pf': "page_of env seg line = pf"
    by (rule ext) (simp add: pf page_of_def)
  have K': "inverse_key env seg line = K"
    by (rule ext) (simp add: K inverse_key_def)
  from multi m mono base onto below above width
  show ?thesis
    unfolding pf' [symmetric] K' [symmetric] by (rule boundaries_of_inverse)
qed

text \<open>
  The worked example: base key 100, four pages, ten keys per page, and an inverted model
  that is three keys off. The search for page 1 and page 3 starts from an upper bound, the
  search for page 2 from a lower bound, and the boundaries are 100, 110, 120 and 130.
\<close>

lemma example_page_of:
  "page_of example_plr example_segment 10 k =
     (if unat k < 100 then 0 else min 3 ((unat k - 100) div 10))"
proof (cases "k < 100")
  case True
  then show ?thesis
    by (simp add: page_of_def example_plr_def example_segment_def word_less_nat_alt)
next
  case False
  then have "100 \<le> k" by simp
  then have "unat (k - 100) = unat k - 100"
    by (simp add: unat_sub)
  with False show ?thesis
    by (simp add: page_of_def example_plr_def example_segment_def word_less_nat_alt)
qed

lemma example_inverse_key:
  "inverse_key example_plr example_segment 10 0 = 97"
  "inverse_key example_plr example_segment 10 1 = 113"
  "inverse_key example_plr example_segment 10 2 = 117"
  "inverse_key example_plr example_segment 10 3 = 133"
  "inverse_key example_plr example_segment 10 4 = 137"
  by (simp_all add: inverse_key_def example_plr_def example_segment_def)

lemma example_boundaries:
  "ComputePageLowerBoundaries example_plr example_segment = Inr [100, 110, 120, 130]"
  by (simp add: ComputePageLowerBoundaries_def example_segment_def upt_rec page_boundary_def
      search_bounds_def page_of_def example_plr_def std_lower_bound_def lower_bound_loop.simps
      Let_def)

lemma example_search_bounds:
  "search_bounds example_plr example_segment 10 (Line_Invert example_plr 10) 1 = (97, 113)"
  "search_bounds example_plr example_segment 10 (Line_Invert example_plr 10) 2 = (117, 133)"
  "search_bounds example_plr example_segment 10 (Line_Invert example_plr 10) 3 = (117, 133)"
  by (simp_all add: search_bounds_def example_page_of Let_def)
     (simp_all add: example_plr_def example_segment_def)

lemma example_mono:
  "\<forall>k k'. k \<le> k' \<longrightarrow>
     page_of example_plr example_segment 10 k \<le> page_of example_plr example_segment 10 k'"
proof (intro allI impI)
  fix k k' :: Key
  assume "k \<le> k'"
  then have le: "unat k \<le> unat k'" by (simp add: word_le_nat_alt)
  then have "(unat k - 100) div 10 \<le> (unat k' - 100) div 10"
    by (intro div_le_mono diff_le_mono)
  with le show "page_of example_plr example_segment 10 k \<le> page_of example_plr example_segment 10 k'"
    by (simp add: example_page_of min_le_iff_disj)
qed

lemma example_pages:
  "1 \<le> i \<and> i < page_count example_segment \<Longrightarrow> i = 1 \<or> i = 2 \<or> i = 3"
  by (auto simp add: example_segment_def)

lemma example_onto:
  "\<forall>i. 1 \<le> i \<and> i < page_count example_segment \<longrightarrow>
     (\<exists>k. page_of example_plr example_segment 10 k = i)"
proof (intro allI impI)
  fix i :: nat
  assume "1 \<le> i \<and> i < page_count example_segment"
  then have "i = 1 \<or> i = 2 \<or> i = 3" by (rule example_pages)
  moreover have "page_of example_plr example_segment 10 110 = 1"
    "page_of example_plr example_segment 10 120 = 2"
    "page_of example_plr example_segment 10 130 = 3"
    by (simp_all add: example_page_of)
  ultimately show "\<exists>k. page_of example_plr example_segment 10 k = i" by blast
qed

lemma small_sums:
  "(1 :: nat) - 1 = 0" "(2 :: nat) - 1 = 1" "(3 :: nat) - 1 = 2"
  "(0 :: nat) + 1 = 1" "(1 :: nat) + 1 = 2" "(2 :: nat) + 1 = 3" "(3 :: nat) + 1 = 4"
  by simp_all

lemma example_below:
  "\<forall>i. 1 \<le> i \<and> i < page_count example_segment \<longrightarrow>
     page_of example_plr example_segment 10 (inverse_key example_plr example_segment 10 (i - 1)) < i"
proof (intro allI impI)
  fix i :: nat
  assume "1 \<le> i \<and> i < page_count example_segment"
  then have "i = 1 \<or> i = 2 \<or> i = 3" by (rule example_pages)
  moreover have
    "page_of example_plr example_segment 10 (inverse_key example_plr example_segment 10 (1 - 1)) < 1"
    "page_of example_plr example_segment 10 (inverse_key example_plr example_segment 10 (2 - 1)) < 2"
    "page_of example_plr example_segment 10 (inverse_key example_plr example_segment 10 (3 - 1)) < 3"
    unfolding small_sums example_inverse_key example_page_of by simp_all
  ultimately show
    "page_of example_plr example_segment 10 (inverse_key example_plr example_segment 10 (i - 1)) < i"
    by blast
qed

lemma example_above:
  "\<forall>i. 1 \<le> i \<and> i < page_count example_segment \<longrightarrow>
     i \<le> page_of example_plr example_segment 10 (inverse_key example_plr example_segment 10 (i + 1))"
proof (intro allI impI)
  fix i :: nat
  assume "1 \<le> i \<and> i < page_count example_segment"
  then have "i = 1 \<or> i = 2 \<or> i = 3" by (rule example_pages)
  moreover have
    "1 \<le> page_of example_plr example_segment 10 (inverse_key example_plr example_segment 10 (1 + 1))"
    "2 \<le> page_of example_plr example_segment 10 (inverse_key example_plr example_segment 10 (2 + 1))"
    "3 \<le> page_of example_plr example_segment 10 (inverse_key example_plr example_segment 10 (3 + 1))"
    unfolding small_sums example_inverse_key example_page_of by simp_all
  ultimately show
    "i \<le> page_of example_plr example_segment 10 (inverse_key example_plr example_segment 10 (i + 1))"
    by blast
qed

lemma example_width:
  "\<forall>j<page_count example_segment.
     uint (inverse_key example_plr example_segment 10 (j + 1) -
           inverse_key example_plr example_segment 10 j) < 2 ^ 63"
proof (intro allI impI)
  fix j :: nat
  assume "j < page_count example_segment"
  then have "j = 0 \<or> j = 1 \<or> j = 2 \<or> j = 3" by (auto simp add: example_segment_def)
  moreover have
    "uint (inverse_key example_plr example_segment 10 (0 + 1) -
           inverse_key example_plr example_segment 10 0) < 2 ^ 63"
    "uint (inverse_key example_plr example_segment 10 (1 + 1) -
           inverse_key example_plr example_segment 10 1) < 2 ^ 63"
    "uint (inverse_key example_plr example_segment 10 (2 + 1) -
           inverse_key example_plr example_segment 10 2) < 2 ^ 63"
    "uint (inverse_key example_plr example_segment 10 (3 + 1) -
           inverse_key example_plr example_segment 10 3) < 2 ^ 63"
    unfolding small_sums example_inverse_key by simp_all
  ultimately show "uint (inverse_key example_plr example_segment 10 (j + 1) -
           inverse_key example_plr example_segment 10 j) < 2 ^ 63"
    by blast
qed

theorem ComputePageLowerBoundaries_boundaries_witness:
  "1 < page_count example_segment \<and> model example_segment = Some 10 \<and>
   page_of example_plr example_segment 10 (base_key example_segment) = 0 \<and>
   search_bounds example_plr example_segment 10 (Line_Invert example_plr 10) 1 = (97, 113) \<and>
   search_bounds example_plr example_segment 10 (Line_Invert example_plr 10) 2 = (117, 133) \<and>
   ComputePageLowerBoundaries example_plr example_segment = Inr [100, 110, 120, 130] \<and>
   (\<exists>bs. ComputePageLowerBoundaries example_plr example_segment = Inr bs \<and>
         length bs = page_count example_segment \<and> bs ! 0 = base_key example_segment \<and>
         sorted_wrt (<) bs \<and>
         (\<forall>i. 1 \<le> i \<and> i < page_count example_segment \<longrightarrow>
              page_of example_plr example_segment 10 (bs ! i) = i \<and>
              (\<forall>k. page_of example_plr example_segment 10 k = i \<longrightarrow> bs ! i \<le> k)))"
proof -
  have multi: "1 < page_count example_segment" by (simp add: example_segment_def)
  have m: "model example_segment = Some 10" by (simp add: example_segment_def)
  have pf: "page_of example_plr example_segment 10 =
      PageForKey example_plr (base_key example_segment) 10 (page_count example_segment)"
    by (rule ext) (simp add: page_of_def)
  have K: "inverse_key example_plr example_segment 10 =
      (\<lambda>page_idx. Line_to_Key example_plr (Line_Invert example_plr 10) page_idx +
         base_key example_segment)"
    by (rule ext) (simp add: inverse_key_def)
  have base: "page_of example_plr example_segment 10 (base_key example_segment) = 0"
    by (simp add: example_page_of) (simp add: example_segment_def)
  from ComputePageLowerBoundaries_boundaries [OF multi m pf K example_mono base example_onto
      example_below example_above example_width]
    multi m base example_search_bounds(1,2) example_boundaries
  show ?thesis by (intro conjI) assumption+
qed

end
